theory Spec2Isabelle
  imports Main "HOL-Library.Word" "HOL-Library.Sublist"
begin

unbundle bit_operations_syntax

section \<open>Data model\<close>

text \<open>
  The device record and the table object of \<^verbatim>\<open>hdmx.cc\<close>. The members written through
  the reader's out-parameters have the width of the read that fills them:
  \<^verbatim>\<open>ReadU8\<close> for \<open>pixel_size\<close>, \<open>max_width\<close> and every width, \<^verbatim>\<open>ReadU16\<close> for
  \<open>version\<close>, \<^verbatim>\<open>ReadS32\<close> for \<open>size_device_record\<close> (read as two's complement
  with \<open>sint\<close>).

  The member \<open>pad_len\<close> is only ever assigned and compared, and its declaration is in
  the header \<^verbatim>\<open>hdmx.h\<close>, which is not among the sources. Its value is kept as an
  integer, and the implicit conversion of the assignment in line 44 is a parameter
  \<open>pad_conv\<close> of \<open>Parse\<close>: the identity for \<^verbatim>\<open>int32_t\<close>, \<open>\<lambda>x. x mod 256\<close> for
  \<^verbatim>\<open>uint8_t\<close> (\<open>conv_u8\<close> below, the declaration of the data model).
\<close>

record OpenTypeHDMXDeviceRecord =
  pixel_size :: "8 word"
  max_width :: "8 word"
  widths :: "8 word list"

record OpenTypeHDMX =
  version :: "16 word"
  size_device_record :: "32 word"
  pad_len :: int
  records :: "OpenTypeHDMXDeviceRecord list"

text \<open>
  The prerequisite tables, with the only members \<^verbatim>\<open>hdmx.cc\<close> reads: \<open>head->flags\<close> and
  \<open>maxp->num_glyphs\<close>, both unsigned 16-bit. Of \<open>glyf\<close> only the presence is tested.
\<close>

record OpenTypeHEAD =
  flags :: "16 word"

record OpenTypeMAXP =
  num_glyphs :: "16 word"

datatype OpenTypeGLYF = OpenTypeGLYF

text \<open>
  A font holds pointers to its tables; a null pointer is \<open>None\<close>. The \<open>hdmx\<close> pointer
  is an address into the store of table objects below, because two fonts may hold the
  same address after \<^verbatim>\<open>ots_hdmx_reuse\<close>.
\<close>

record Font =
  head :: "OpenTypeHEAD option"
  maxp :: "OpenTypeMAXP option"
  glyf :: "OpenTypeGLYF option"
  hdmx :: "nat option"
  hdmx_reused :: bool

record Store =
  objs :: "nat \<Rightarrow> OpenTypeHDMX option"
  next_addr :: nat

section \<open>Outcomes\<close>

text \<open>
  \<^verbatim>\<open>Parse\<close> and \<^verbatim>\<open>Serialize\<close> leave through \<^verbatim>\<open>return true\<close>, \<^verbatim>\<open>return Error(...)\<close> or
  \<^verbatim>\<open>return Drop(...)\<close>. Each call site of the source is one constructor of \<open>reason\<close>,
  with the arguments its message is formatted with.
\<close>

datatype reason =
    MissingTables
  | FlagsNotSet
  | HeaderRead
  | BadVersion "16 word"
  | BadNumRecs int
  | BadSizeDeviceRecord int
  | BadPadding int
  | RecordRead nat
  | NotSorted
  | WidthRead nat nat
  | SkipPadding int
  | HeaderWrite
  | RecordWrite nat
  | PaddingWrite int

datatype outcome = Success | Drop reason | Error reason

fun is_Drop :: "outcome \<Rightarrow> bool" where
  "is_Drop (Drop r) = True"
| "is_Drop Success = False"
| "is_Drop (Error r) = False"


section \<open>Bounded reader\<close>

text \<open>
  Modelled from the spec: the class \<^verbatim>\<open>Buffer\<close> (declared in \<^verbatim>\<open>ots.h\<close>, not among the
  sources). A cursor over an immutable byte region; every read consumes a fixed width at
  the cursor and returns the big-endian value, or fails and leaves the cursor where it
  was; \<open>Skip n\<close> advances by \<open>n\<close> bytes only if \<open>n\<close> bytes remain.
\<close>

record Buffer =
  buffer :: "8 word list"
  offset :: nat

definition Buffer_new :: "8 word list \<Rightarrow> Buffer" where
  "Buffer_new data = \<lparr>buffer = data, offset = 0\<rparr>"

definition ReadU8 :: "Buffer \<Rightarrow> (8 word \<times> Buffer) option" where
  "ReadU8 b =
     (if length (buffer b) < offset b + 1 then None
      else Some (buffer b ! offset b, b\<lparr>offset := offset b + 1\<rparr>))"

definition ReadU16 :: "Buffer \<Rightarrow> (16 word \<times> Buffer) option" where
  "ReadU16 b =
     (if length (buffer b) < offset b + 2 then None
      else Some (push_bit 8 (ucast (buffer b ! offset b)) OR ucast (buffer b ! (offset b + 1)),
                 b\<lparr>offset := offset b + 2\<rparr>))"

text \<open>A signed read takes the same two bytes; the sign is in how the word is read back.\<close>

definition ReadS16 :: "Buffer \<Rightarrow> (16 word \<times> Buffer) option" where
  "ReadS16 b = ReadU16 b"

definition ReadS32 :: "Buffer \<Rightarrow> (32 word \<times> Buffer) option" where
  "ReadS32 b =
     (if length (buffer b) < offset b + 4 then None
      else Some (push_bit 24 (ucast (buffer b ! offset b))
                 OR push_bit 16 (ucast (buffer b ! (offset b + 1)))
                 OR push_bit 8 (ucast (buffer b ! (offset b + 2)))
                 OR ucast (buffer b ! (offset b + 3)),
                 b\<lparr>offset := offset b + 4\<rparr>))"

definition Skip :: "nat \<Rightarrow> Buffer \<Rightarrow> Buffer option" where
  "Skip n b =
     (if length (buffer b) < offset b + n then None
      else Some (b\<lparr>offset := offset b + n\<rparr>))"

section \<open>Bounded writer\<close>

text \<open>
  Modelled from the spec: the class \<^verbatim>\<open>OTSStream\<close> (declared in
  \<^verbatim>\<open>opentype-sanitiser.h\<close>, not among the sources). An append-only sink; the typed
  writes encode big-endian; any write may fail, here when the sink's \<open>capacity\<close> would
  be exceeded, and a failed write appends nothing.
\<close>

record OTSStream =
  written :: "8 word list"
  capacity :: nat

definition Write :: "8 word list \<Rightarrow> OTSStream \<Rightarrow> OTSStream option" where
  "Write bs out =
     (if capacity out < length (written out) + length bs then None
      else Some (out\<lparr>written := written out @ bs\<rparr>))"

definition bytesU16 :: "16 word \<Rightarrow> 8 word list" where
  "bytesU16 v = [ucast (drop_bit 8 v), ucast v]"

definition bytesS32 :: "32 word \<Rightarrow> 8 word list" where
  "bytesS32 v = [ucast (drop_bit 24 v), ucast (drop_bit 16 v), ucast (drop_bit 8 v), ucast v]"

definition WriteU16 :: "16 word \<Rightarrow> OTSStream \<Rightarrow> OTSStream option" where
  "WriteU16 v out = Write (bytesU16 v) out"

definition WriteS16 :: "16 word \<Rightarrow> OTSStream \<Rightarrow> OTSStream option" where
  "WriteS16 v out = Write (bytesU16 v) out"

definition WriteS32 :: "32 word \<Rightarrow> OTSStream \<Rightarrow> OTSStream option" where
  "WriteS32 v out = Write (bytesS32 v) out"

section \<open>Parse\<close>

text \<open>
  The inner loop of lines 65 to 71: \<open>read_widths n j table ws\<close> has \<open>n\<close> widths left to
  read, the next one with index \<open>j\<close>. A short read gives \<open>Inl j\<close>.
\<close>

fun read_widths :: "nat \<Rightarrow> nat \<Rightarrow> Buffer \<Rightarrow> 8 word list \<Rightarrow> nat + (8 word list \<times> Buffer)" where
  "read_widths 0 j table ws = Inr (ws, table)"
| "read_widths (Suc n) j table ws =
     (case ReadU8 table of
        None \<Rightarrow> Inl j
      | Some (width, table') \<Rightarrow> read_widths n (Suc j) table' (ws @ [width]))"

text \<open>
  The record loop of lines 51 to 79: \<open>Parse_records ng k i last_pixel_size table this\<close> has \<open>k\<close>
  records left to read, the next one with index \<open>i\<close>; \<open>ng\<close> is \<open>maxp->num_glyphs\<close>
  and \<open>last_pixel_size\<close> is the local of line 49. Every record read is appended to \<open>this->records\<close>
  before the next iteration.
\<close>

fun Parse_records ::
  "nat \<Rightarrow> nat \<Rightarrow> nat \<Rightarrow> 8 word \<Rightarrow> Buffer \<Rightarrow> OpenTypeHDMX \<Rightarrow> outcome \<times> OpenTypeHDMX" where
  "Parse_records ng 0 i last_pixel_size table this = (Success, this)"
| "Parse_records ng (Suc k) i last_pixel_size table this =
     (case ReadU8 table of
        None \<Rightarrow> (Error (RecordRead i), this)
      | Some (ps, table1) \<Rightarrow>
     (case ReadU8 table1 of
        None \<Rightarrow> (Error (RecordRead i), this)
      | Some (mw, table2) \<Rightarrow>
     if i \<noteq> 0 \<and> ps \<le> last_pixel_size then (Drop NotSorted, this)
     else
     (case read_widths ng 0 table2 [] of
        Inl j \<Rightarrow> (Error (WidthRead j i), this)
      | Inr (ws, table3) \<Rightarrow>
     (let rec = \<lparr>pixel_size = ps, max_width = mw, widths = ws\<rparr> in
      if pad_len this > 0 then
        (case Skip (nat (pad_len this)) table3 of
           None \<Rightarrow> (Error (SkipPadding (pad_len this)), this)
         | Some table4 \<Rightarrow>
             Parse_records ng k (Suc i) ps table4 (this\<lparr>records := records this @ [rec]\<rparr>))
      else Parse_records ng k (Suc i) ps table3 (this\<lparr>records := records this @ [rec]\<rparr>)))))"

text \<open>
  \<^verbatim>\<open>OpenTypeHDMX::Parse\<close>, lines 14 to 82. \<open>font\<close> is what \<^verbatim>\<open>GetFont()\<close> returns and
  \<open>this\<close> the table object the method is called on; the result is the outcome and the
  table object as the call leaves it. \<open>num_glyphs + 2\<close> is computed in \<^verbatim>\<open>int\<close> from an
  unsigned 16-bit value, and the difference of line 44 is taken only when
  \<open>size_device_record\<close> is not below it, so neither can overflow.
\<close>

definition Parse ::
  "(int \<Rightarrow> int) \<Rightarrow> Font \<Rightarrow> 8 word list \<Rightarrow> OpenTypeHDMX \<Rightarrow> outcome \<times> OpenTypeHDMX" where
  "Parse pad_conv font data this =
     (let table = Buffer_new data in
      case head font of None \<Rightarrow> (Error MissingTables, this) | Some hd_t \<Rightarrow>
      case maxp font of None \<Rightarrow> (Error MissingTables, this) | Some mx_t \<Rightarrow>
      if flags hd_t AND 0x14 = 0 then (Drop FlagsNotSet, this)
      else
      case ReadU16 table of None \<Rightarrow> (Error HeaderRead, this) | Some (v, table1) \<Rightarrow>
      let this1 = this\<lparr>version := v\<rparr> in
      case ReadS16 table1 of None \<Rightarrow> (Error HeaderRead, this1) | Some (num_recs, table2) \<Rightarrow>
      case ReadS32 table2 of None \<Rightarrow> (Error HeaderRead, this1) | Some (sdr, table3) \<Rightarrow>
      let this2 = this1\<lparr>size_device_record := sdr\<rparr> in
      if version this2 \<noteq> 0 then (Drop (BadVersion (version this2)), this2)
      else if sint num_recs \<le> 0 then (Drop (BadNumRecs (sint num_recs)), this2)
      else
      let actual_size_device_record = uint (num_glyphs mx_t) + 2 in
      if sint (size_device_record this2) < actual_size_device_record
      then (Drop (BadSizeDeviceRecord (sint (size_device_record this2))), this2)
      else
      let this3 = this2\<lparr>pad_len :=
                    pad_conv (sint (size_device_record this2) - actual_size_device_record)\<rparr> in
      if pad_len this3 > 3 then (Error (BadPadding (pad_len this3)), this3)
      else Parse_records (unat (num_glyphs mx_t)) (nat (sint num_recs)) 0 0 table3 this3)"

section \<open>ShouldSerialize and Serialize\<close>

text \<open>
  Modelled from the spec: \<^verbatim>\<open>Table::ShouldSerialize\<close> of the base class (not among the
  sources), "Default precondition (absent override) is simply parsed successfully". Its
  argument is the outcome of the table's \<open>Parse\<close>.
\<close>

definition Table_ShouldSerialize :: "outcome \<Rightarrow> bool" where
  "Table_ShouldSerialize parsed = (parsed = Success)"

text \<open>\<^verbatim>\<open>OpenTypeHDMX::ShouldSerialize\<close>, lines 84 to 87.\<close>

definition ShouldSerialize :: "outcome \<Rightarrow> Font \<Rightarrow> bool" where
  "ShouldSerialize parsed font = (Table_ShouldSerialize parsed \<and> glyf font \<noteq> None)"

text \<open>
  The loop of lines 99 to 110. It runs while \<open>i < num_recs\<close>, and it is entered only
  after the guard of line 91, under which \<open>num_recs\<close> is \<open>records.size()\<close> untruncated:
  it visits \<open>records[0]\<close>, \<open>records[1]\<close>, ... in order, which is recursion over the list
  with the index carried along. Two steps of the body have no defined behaviour for
  some tables, and the model returns \<open>None\<close> there. Line 103 takes the address of
  \<open>rec.widths[0]\<close> once the two fixed bytes are written: on a record with no widths
  this indexes an empty vector. The padding is written from the literal
  \<^verbatim>\<open>"\x00\x00\x00"\<close>, four zero bytes with its terminator: a \<open>pad_len\<close> above 4 reads
  past it.
\<close>

fun Serialize_records ::
  "int \<Rightarrow> nat \<Rightarrow> OpenTypeHDMXDeviceRecord list \<Rightarrow> OTSStream \<Rightarrow> (outcome \<times> OTSStream) option" where
  "Serialize_records pad i [] out = Some (Success, out)"
| "Serialize_records pad i (rec # recs) out =
     (case Write [pixel_size rec] out of
        None \<Rightarrow> Some (Error (RecordWrite i), out)
      | Some out1 \<Rightarrow>
     (case Write [max_width rec] out1 of
        None \<Rightarrow> Some (Error (RecordWrite i), out1)
      | Some out2 \<Rightarrow>
     if widths rec = [] then None
     else
     (case Write (widths rec) out2 of
        None \<Rightarrow> Some (Error (RecordWrite i), out2)
      | Some out3 \<Rightarrow>
     if pad > 0 then
       (if pad > 4 then None
        else
        (case Write (replicate (nat pad) 0) out3 of
           None \<Rightarrow> Some (Error (PaddingWrite pad), out3)
         | Some out4 \<Rightarrow> Serialize_records pad (Suc i) recs out4))
     else Serialize_records pad (Suc i) recs out3)))"

text \<open>
  \<^verbatim>\<open>OpenTypeHDMX::Serialize\<close>, lines 89 to 113. \<open>num_recs\<close> is the record count
  truncated to 16 bits by the \<^verbatim>\<open>static_cast\<close>; the guard and the three header writes
  are one short-circuit chain with one message.
\<close>

definition Serialize :: "OpenTypeHDMX \<Rightarrow> OTSStream \<Rightarrow> (outcome \<times> OTSStream) option" where
  "Serialize this out =
     (let num_recs = (word_of_nat (length (records this)) :: 16 word) in
      if length (records this) > 32767 then Some (Error HeaderWrite, out)
      else
      case WriteU16 (version this) out of None \<Rightarrow> Some (Error HeaderWrite, out) | Some out1 \<Rightarrow>
      case WriteS16 num_recs out1 of None \<Rightarrow> Some (Error HeaderWrite, out1) | Some out2 \<Rightarrow>
      case WriteS32 (size_device_record this) out2 of
        None \<Rightarrow> Some (Error HeaderWrite, out2)
      | Some out3 \<Rightarrow> Serialize_records (pad_len this) 0 (records this) out3)"

section \<open>Construction, sharing and release\<close>

text \<open>
  Modelled from the spec: the constructor of \<^verbatim>\<open>OpenTypeHDMX\<close> (in \<^verbatim>\<open>hdmx.h\<close>, not among
  the sources), "HdmxTable is constructed empty". The scalar members are set by \<open>Parse\<close>
  only; what they hold before is the argument \<open>indet\<close>.
\<close>

definition new_OpenTypeHDMX :: "OpenTypeHDMX \<Rightarrow> OpenTypeHDMX" where
  "new_OpenTypeHDMX indet = indet\<lparr>records := []\<rparr>"

text \<open>
  \<^verbatim>\<open>ots_hdmx_parse\<close>, lines 115 to 118: a new table object is allocated, the font
  points at it, and the object is left as \<open>Parse\<close> leaves it, whatever the outcome.
\<close>

definition ots_hdmx_parse ::
  "(int \<Rightarrow> int) \<Rightarrow> OpenTypeHDMX \<Rightarrow> Font \<Rightarrow> 8 word list \<Rightarrow> Store \<Rightarrow> outcome \<times> Font \<times> Store" where
  "ots_hdmx_parse pad_conv indet font data st =
     (let p = next_addr st;
          font' = font\<lparr>hdmx := Some p\<rparr>;
          (parsed, this) = Parse pad_conv font' data (new_OpenTypeHDMX indet)
      in (parsed, font', st\<lparr>objs := (objs st)(p \<mapsto> this), next_addr := Suc p\<rparr>))"

text \<open>\<^verbatim>\<open>ots_hdmx_reuse\<close>, lines 128 to 131.\<close>

definition ots_hdmx_reuse :: "Font \<Rightarrow> Font \<Rightarrow> Font" where
  "ots_hdmx_reuse font other = font\<lparr>hdmx := hdmx other, hdmx_reused := True\<rparr>"

text \<open>
  \<^verbatim>\<open>ots_hdmx_free\<close>, lines 133 to 135: \<^verbatim>\<open>delete font->hdmx\<close>. Deleting a null pointer
  does nothing; deleting an address that holds no object (a second delete) is undefined
  behaviour and \<open>None\<close> here.
\<close>

definition ots_hdmx_free :: "Font \<Rightarrow> Store \<Rightarrow> Store option" where
  "ots_hdmx_free font st =
     (case hdmx font of
        None \<Rightarrow> Some st
      | Some p \<Rightarrow>
          (case objs st p of
             None \<Rightarrow> None
           | Some this \<Rightarrow> Some (st\<lparr>objs := (objs st)(p := None)\<rparr>)))"

text \<open>
  A font's \<open>hdmx\<close> pointer is valid in a store when it is null or the address holds a
  table object.
\<close>

definition hdmx_valid :: "Store \<Rightarrow> Font \<Rightarrow> bool" where
  "hdmx_valid st font = (case hdmx font of None \<Rightarrow> True | Some p \<Rightarrow> objs st p \<noteq> None)"


section \<open>Wire layout\<close>

text \<open>
  Where the loop of \<open>Parse\<close> finds its records. One iteration that completes consumes
  \<open>record_stride\<close> bytes: the two fixed fields, \<open>num_glyphs\<close> widths, and the padding
  that line 74 skips when \<open>pad_len\<close> is positive. \<open>record_at ng data pos\<close> is the record
  whose first byte is \<open>data[pos]\<close>, and \<open>records_at ng st data pos k\<close> are \<open>k\<close>
  consecutive records from offset \<open>pos\<close>; the first record follows the eight header bytes.
\<close>

definition record_stride :: "nat \<Rightarrow> int \<Rightarrow> nat" where
  "record_stride ng pad = 2 + ng + nat pad"

definition record_at :: "nat \<Rightarrow> 8 word list \<Rightarrow> nat \<Rightarrow> OpenTypeHDMXDeviceRecord" where
  "record_at ng data pos =
     \<lparr>pixel_size = data ! pos, max_width = data ! (pos + 1),
      widths = take ng (drop (pos + 2) data)\<rparr>"

fun records_at ::
  "nat \<Rightarrow> nat \<Rightarrow> 8 word list \<Rightarrow> nat \<Rightarrow> nat \<Rightarrow> OpenTypeHDMXDeviceRecord list" where
  "records_at ng st data pos 0 = []"
| "records_at ng st data pos (Suc k) =
     record_at ng data pos # records_at ng st data (pos + st) k"

text \<open>
  The three header fields of an input, as the reads of lines 28 to 30 return them when
  all eight bytes are present.
\<close>

definition header_fields :: "8 word list \<Rightarrow> 16 word \<Rightarrow> 16 word \<Rightarrow> 32 word \<Rightarrow> bool" where
  "header_fields data v n s =
     (ReadU16 \<lparr>buffer = data, offset = 0\<rparr> = Some (v, \<lparr>buffer = data, offset = 2\<rparr>)
      \<and> ReadS16 \<lparr>buffer = data, offset = 2\<rparr> = Some (n, \<lparr>buffer = data, offset = 4\<rparr>)
      \<and> ReadS32 \<lparr>buffer = data, offset = 4\<rparr> = Some (s, \<lparr>buffer = data, offset = 8\<rparr>))"

text \<open>
  What \<open>Serialize\<close> appends to the sink when no write fails: the header, then each record
  followed by its padding.
\<close>

definition record_bytes :: "int \<Rightarrow> OpenTypeHDMXDeviceRecord \<Rightarrow> 8 word list" where
  "record_bytes pad rec = pixel_size rec # max_width rec # widths rec @ replicate (nat pad) 0"

definition table_bytes :: "OpenTypeHDMX \<Rightarrow> 8 word list" where
  "table_bytes this =
     bytesU16 (version this) @ bytesU16 (word_of_nat (length (records this)))
     @ bytesS32 (size_device_record this)
     @ concat (map (record_bytes (pad_len this)) (records this))"

section \<open>Example inputs\<close>

text \<open>
  The fonts and byte strings of the concrete scenarios: three glyphs, one record
  \<open>(12, 10, [9, 9, 8])\<close> with \<open>sizeDeviceRecord = 5\<close>, the same with three bytes of
  padding, two records out of order, and fonts whose head flags have both gate bits,
  only bit 2, or neither.
\<close>

definition font_outline :: Font where
  "font_outline = \<lparr>head = Some \<lparr>flags = 0x14\<rparr>, maxp = Some \<lparr>num_glyphs = 3\<rparr>,
                    glyf = Some OpenTypeGLYF, hdmx = None, hdmx_reused = False\<rparr>"

definition font_bit2 :: Font where
  "font_bit2 = \<lparr>head = Some \<lparr>flags = 0x04\<rparr>, maxp = Some \<lparr>num_glyphs = 3\<rparr>,
                 glyf = Some OpenTypeGLYF, hdmx = None, hdmx_reused = False\<rparr>"

definition font_noflags :: Font where
  "font_noflags = \<lparr>head = Some \<lparr>flags = 0x03\<rparr>, maxp = Some \<lparr>num_glyphs = 3\<rparr>,
                    glyf = Some OpenTypeGLYF, hdmx = None, hdmx_reused = False\<rparr>"

definition font_nohead :: Font where
  "font_nohead = \<lparr>head = None, maxp = Some \<lparr>num_glyphs = 3\<rparr>,
                   glyf = Some OpenTypeGLYF, hdmx = None, hdmx_reused = False\<rparr>"

definition font_other :: Font where
  "font_other = \<lparr>head = Some \<lparr>flags = 0x14\<rparr>, maxp = Some \<lparr>num_glyphs = 3\<rparr>,
                  glyf = Some OpenTypeGLYF, hdmx = None, hdmx_reused = False\<rparr>"

definition table_indet :: OpenTypeHDMX where
  "table_indet = \<lparr>version = 7, size_device_record = 7, pad_len = 7, records = []\<rparr>"

definition data_one_record :: "8 word list" where
  "data_one_record = [0, 0, 0, 1, 0, 0, 0, 5, 12, 10, 9, 9, 8]"


definition data_unsorted :: "8 word list" where
  "data_unsorted = [0, 0, 0, 2, 0, 0, 0, 5, 12, 10, 9, 9, 8, 10, 10, 9, 9, 8]"

definition data_small_record :: "8 word list" where
  "data_small_record = [0, 0, 0, 1, 0, 0, 0, 4, 12, 10, 9, 9, 8]"


definition empty_Store :: Store where
  "empty_Store = \<lparr>objs = Map.empty, next_addr = 0\<rparr>"

definition font_owner :: Font where
  "font_owner = fst (snd (ots_hdmx_parse id table_indet font_outline data_one_record empty_Store))"

definition store_parsed :: Store where
  "store_parsed = snd (snd (ots_hdmx_parse id table_indet font_outline data_one_record empty_Store))"

definition font_holder :: Font where
  "font_holder = ots_hdmx_reuse font_other font_owner"

definition table_one_record :: OpenTypeHDMX where
  "table_one_record = \<lparr>version = 0, size_device_record = 5, pad_len = 0,
     records = [\<lparr>pixel_size = 12, max_width = 10, widths = [9, 9, 8]\<rparr>]\<rparr>"


definition data_two_records :: "8 word list" where
  "data_two_records = [0, 0, 0, 2, 0, 0, 0, 5, 10, 10, 9, 9, 8, 12, 11, 9, 9, 9]"

definition table_two_records :: OpenTypeHDMX where
  "table_two_records = \<lparr>version = 0, size_device_record = 5, pad_len = 0,
     records = [\<lparr>pixel_size = 10, max_width = 10, widths = [9, 9, 8]\<rparr>,
                \<lparr>pixel_size = 12, max_width = 11, widths = [9, 9, 9]\<rparr>]\<rparr>"

definition table_unsorted_left :: OpenTypeHDMX where
  "table_unsorted_left = \<lparr>version = 0, size_device_record = 5, pad_len = 0,
     records = [\<lparr>pixel_size = 12, max_width = 10, widths = [9, 9, 8]\<rparr>]\<rparr>"

definition font_no_glyphs :: Font where
  "font_no_glyphs = \<lparr>head = Some \<lparr>flags = 0x14\<rparr>, maxp = Some \<lparr>num_glyphs = 0\<rparr>,
                      glyf = Some OpenTypeGLYF, hdmx = None, hdmx_reused = False\<rparr>"

definition data_no_widths :: "8 word list" where
  "data_no_widths = [0, 0, 0, 1, 0, 0, 0, 2, 12, 10]"

definition table_no_widths :: OpenTypeHDMX where
  "table_no_widths = \<lparr>version = 0, size_device_record = 2, pad_len = 0,
     records = [\<lparr>pixel_size = 12, max_width = 10, widths = []\<rparr>]\<rparr>"



definition table_small_left :: OpenTypeHDMX where
  "table_small_left = \<lparr>version = 0, size_device_record = 4, pad_len = 7, records = []\<rparr>"

definition empty_sink :: OTSStream where
  "empty_sink = \<lparr>written = [], capacity = 64\<rparr>"

section \<open>The record loop\<close>

text \<open>The loop only appends to \<open>records\<close>, and its outcomes are those of lines 56 to 75.\<close>

lemma Parse_records_frame:
  "Parse_records ng k i l table this = (oc, this') \<Longrightarrow>
   version this' = version this \<and> size_device_record this' = size_device_record this
   \<and> pad_len this' = pad_len this
   \<and> prefix (records this) (records this')
   \<and> (oc = Success \<longrightarrow> length (records this') = length (records this) + k)
   \<and> (oc \<noteq> Success \<longrightarrow> length (records this') < length (records this) + k)"
proof (induction k arbitrary: i l table this)
  case 0
  then show ?case by simp
next
  case (Suc k)
  from Suc.prems show ?case
    by (auto simp: Let_def split: option.splits sum.splits if_splits prod.splits
             dest!: Suc.IH dest: append_prefixD)
qed

lemma read_widths_length:
  "read_widths n j table ws = Inr (ws', table') \<Longrightarrow> length ws' = length ws + n"
  by (induction n arbitrary: j table ws) (auto split: option.splits)

lemma Parse_records_widths:
  "Parse_records ng k i l table this = (oc, this') \<Longrightarrow>
   \<forall>r \<in> set (records this). length (widths r) = ng \<Longrightarrow>
   \<forall>r \<in> set (records this'). length (widths r) = ng"
proof (induction k arbitrary: i l table this)
  case 0
  then show ?case by simp
next
  case (Suc k)
  from Suc.prems show ?case
    by (auto simp: Let_def split: option.splits sum.splits if_splits prod.splits
             dest!: Suc.IH read_widths_length)
qed

lemma Parse_records_Suc:
  assumes "Parse_records ng (Suc k) i l table this = (oc, this')"
  shows "(this' = this \<and> (oc = Error (RecordRead i) \<or> oc = Drop NotSorted
            \<or> (\<exists>j. oc = Error (WidthRead j i)) \<or> oc = Error (SkipPadding (pad_len this))))
       \<or> (\<exists>ps mw ws table1 table2 table3 table4.
             ReadU8 table = Some (ps, table1) \<and> ReadU8 table1 = Some (mw, table2)
             \<and> (i = 0 \<or> l < ps)
             \<and> read_widths ng 0 table2 [] = Inr (ws, table3)
             \<and> (if 0 < pad_len this then Skip (nat (pad_len this)) table3 = Some table4
                 else table4 = table3)
             \<and> Parse_records ng k (Suc i) ps table4
                  (this\<lparr>records := records this
                           @ [\<lparr>pixel_size = ps, max_width = mw, widths = ws\<rparr>]\<rparr>) = (oc, this'))"
  using assms
  by (auto simp: Let_def split: option.splits sum.splits if_splits prod.splits)

lemma Parse_records_sorted:
  "Parse_records ng k i l table this = (oc, this') \<Longrightarrow>
   successively (<) (map pixel_size (records this)) \<Longrightarrow>
   records this = [] \<or> (i \<noteq> 0 \<and> pixel_size (last (records this)) = l) \<Longrightarrow>
   successively (<) (map pixel_size (records this'))"
proof (induction k arbitrary: i l table this)
  case 0
  then show ?case by simp
next
  case (Suc k)
  from Parse_records_Suc [OF Suc.prems(1)]
  consider (stop) "this' = this"
    | (step) ps mw ws table4 where "i = 0 \<or> l < ps"
        "Parse_records ng k (Suc i) ps table4
           (this\<lparr>records := records this
              @ [\<lparr>pixel_size = ps, max_width = mw, widths = ws\<rparr>]\<rparr>) = (oc, this')"
    by blast
  then show ?case
  proof cases
    case stop
    with Suc.prems(2) show ?thesis by simp
  next
    case step
    have "records this = [] \<or> pixel_size (last (records this)) < ps"
      using Suc.prems(3) step(1) by auto
    then have "successively (<) (map pixel_size (records this) @ [ps])"
      using Suc.prems(2)
      by (cases "records this = []") (auto simp: successively_append_iff last_map)
    then show ?thesis
      by (intro Suc.IH [OF step(2)]) simp_all
  qed
qed

lemma Parse_records_outcome:
  "Parse_records ng k i l table this = (oc, this') \<Longrightarrow>
   oc = Success \<or> oc = Drop NotSorted \<or> (\<exists>i'. oc = Error (RecordRead i'))
   \<or> (\<exists>j i'. oc = Error (WidthRead j i')) \<or> oc = Error (SkipPadding (pad_len this))"
proof (induction k arbitrary: i l table this)
  case 0
  then show ?case by simp
next
  case (Suc k)
  from Suc.prems show ?case
    by (auto simp: Let_def split: option.splits sum.splits if_splits prod.splits
             dest!: Suc.IH)
qed

section \<open>The header checks\<close>

text \<open>
  Either \<open>Parse\<close> leaves before the loop, with \<open>records\<close> untouched, or every check of
  lines 17 to 47 has passed and its result is that of the loop.
\<close>

lemma Parse_inversion:
  assumes "Parse pad_conv font data this = (oc, this')"
  shows "(records this' = records this
          \<and> (oc = Drop FlagsNotSet \<longrightarrow> (\<forall>h. head font = Some h \<longrightarrow> flags h AND 0x14 = 0))
          \<and> ((\<forall>p. oc \<noteq> Error (BadPadding p)) \<longrightarrow> pad_len this' = pad_len this)
          \<and> (oc = Error MissingTables \<or> oc = Drop FlagsNotSet \<or> oc = Error HeaderRead
           \<or> (\<exists>v. oc = Drop (BadVersion v)) \<or> (\<exists>n. oc = Drop (BadNumRecs n))
           \<or> (\<exists>s. oc = Drop (BadSizeDeviceRecord s)) \<or> (\<exists>p. oc = Error (BadPadding p))))
       \<or> (\<exists>h m n s b1 b2 b3.
            head font = Some h \<and> maxp font = Some m \<and> flags h AND 0x14 \<noteq> 0
            \<and> ReadU16 (Buffer_new data) = Some (0, b1) \<and> ReadS16 b1 = Some (n, b2)
            \<and> ReadS32 b2 = Some (s, b3) \<and> 0 < sint n
            \<and> uint (num_glyphs m) + 2 \<le> sint s
            \<and> pad_conv (sint s - (uint (num_glyphs m) + 2)) \<le> 3
            \<and> Parse_records (unat (num_glyphs m)) (nat (sint n)) 0 0 b3
                 (this\<lparr>version := 0, size_device_record := s,
                        pad_len := pad_conv (sint s - (uint (num_glyphs m) + 2))\<rparr>) = (oc, this'))"
  using assms
  by (auto simp: Parse_def Let_def split: option.splits if_splits prod.splits)

section \<open>Positions of the records\<close>

text \<open>
  The reads of one iteration in terms of the cursor: an iteration completes exactly when
  \<open>record_stride\<close> bytes remain and the order check passes, and it then appends the record
  at the cursor.
\<close>

lemma ReadU8_Some:
  "ReadU8 b = Some (x, b') \<longleftrightarrow>
   offset b < length (buffer b) \<and> x = buffer b ! offset b \<and> b' = b\<lparr>offset := offset b + 1\<rparr>"
  by (auto simp: ReadU8_def)

lemma read_widths_fits:
  "offset b + n \<le> length (buffer b) \<Longrightarrow>
   read_widths n j b acc
     = Inr (acc @ take n (drop (offset b) (buffer b)), b\<lparr>offset := offset b + n\<rparr>)"
proof (induction n arbitrary: j b acc)
  case 0
  show ?case by simp
next
  case (Suc n)
  then have lt: "offset b < length (buffer b)" by simp
  then have rd: "ReadU8 b = Some (buffer b ! offset b, b\<lparr>offset := offset b + 1\<rparr>)"
    by (simp add: ReadU8_def)
  have split: "take (Suc n) (drop (offset b) (buffer b))
                 = buffer b ! offset b # take n (drop (Suc (offset b)) (buffer b))"
    using lt by (simp add: Cons_nth_drop_Suc [symmetric])
  from Suc.prems have "offset (b\<lparr>offset := offset b + 1\<rparr>) + n
                         \<le> length (buffer (b\<lparr>offset := offset b + 1\<rparr>))"
    by simp
  from Suc.IH [OF this] show ?case
    by (simp add: rd split)
qed

lemma read_widths_Inr:
  "read_widths n j b acc = Inr (ws, b') \<Longrightarrow>
   (n = 0 \<or> offset b + n \<le> length (buffer b))
   \<and> ws = acc @ take n (drop (offset b) (buffer b)) \<and> b' = b\<lparr>offset := offset b + n\<rparr>"
proof (induction n arbitrary: j b acc)
  case 0
  then show ?case by auto
next
  case (Suc n)
  from Suc.prems have lt: "offset b < length (buffer b)"
    by (auto simp: ReadU8_def split: if_splits)
  then have rd: "ReadU8 b = Some (buffer b ! offset b, b\<lparr>offset := offset b + 1\<rparr>)"
    by (simp add: ReadU8_def)
  have split: "take (Suc n) (drop (offset b) (buffer b))
                 = buffer b ! offset b # take n (drop (Suc (offset b)) (buffer b))"
    using lt by (simp add: Cons_nth_drop_Suc [symmetric])
  from Suc.prems rd
  have "read_widths n (Suc j) (b\<lparr>offset := offset b + 1\<rparr>) (acc @ [buffer b ! offset b])
          = Inr (ws, b')"
    by simp
  from Suc.IH [OF this] lt show ?case
    by (auto simp: split)
qed

lemma Parse_records_step:
  assumes fits: "offset table + record_stride ng (pad_len this) \<le> length (buffer table)"
    and ord: "i = 0 \<or> l < buffer table ! offset table"
  shows "Parse_records ng (Suc k) i l table this =
         Parse_records ng k (Suc i) (buffer table ! offset table)
           (table\<lparr>offset := offset table + record_stride ng (pad_len this)\<rparr>)
           (this\<lparr>records := records this @ [record_at ng (buffer table) (offset table)]\<rparr>)"
proof -
  let ?o = "offset table"
  have r1: "ReadU8 table = Some (buffer table ! ?o, table\<lparr>offset := ?o + 1\<rparr>)"
    using fits by (simp add: ReadU8_def record_stride_def)
  have r2: "ReadU8 (table\<lparr>offset := ?o + 1\<rparr>)
              = Some (buffer table ! (?o + 1), table\<lparr>offset := ?o + 2\<rparr>)"
    using fits by (simp add: ReadU8_def record_stride_def)
  have r3: "read_widths ng 0 (table\<lparr>offset := ?o + 2\<rparr>) []
              = Inr (take ng (drop (?o + 2) (buffer table)), table\<lparr>offset := ?o + 2 + ng\<rparr>)"
    using fits by (simp add: read_widths_fits record_stride_def)
  have no: "\<not> (i \<noteq> 0 \<and> buffer table ! ?o \<le> l)"
    using ord by auto
  show ?thesis
  proof (cases "0 < pad_len this")
    case True
    then have r4: "Skip (nat (pad_len this)) (table\<lparr>offset := ?o + 2 + ng\<rparr>)
                     = Some (table\<lparr>offset := ?o + record_stride ng (pad_len this)\<rparr>)"
      using fits by (simp add: Skip_def record_stride_def add.assoc)
    show ?thesis
      using True no r1 r2 r3 r4 by (auto simp: record_at_def)
  next
    case False
    then have "record_stride ng (pad_len this) = 2 + ng"
      by (simp add: record_stride_def)
    then show ?thesis
      using False no r1 r2 r3 by (auto simp: record_at_def)
  qed
qed

lemma Parse_records_unsorted_here:
  assumes "offset table + 2 \<le> length (buffer table)" and "i \<noteq> 0"
    and "buffer table ! offset table \<le> l"
  shows "Parse_records ng (Suc k) i l table this = (Drop NotSorted, this)"
  using assms by (simp add: ReadU8_def)


lemma Parse_records_Suc_fits:
  assumes "Parse_records ng (Suc k) i l table this = (oc, this')"
  shows "(this' = this \<and> oc \<noteq> Success)
       \<or> (offset table + record_stride ng (pad_len this) \<le> length (buffer table)
          \<and> (i = 0 \<or> l < buffer table ! offset table))"
proof -
  from Parse_records_Suc [OF assms]
  consider (stop) "this' = this" "oc \<noteq> Success"
    | (step) ps mw ws table1 table2 table3 table4 where
        "ReadU8 table = Some (ps, table1)" "ReadU8 table1 = Some (mw, table2)"
        "i = 0 \<or> l < ps" "read_widths ng 0 table2 [] = Inr (ws, table3)"
        "if 0 < pad_len this then Skip (nat (pad_len this)) table3 = Some table4
         else table4 = table3"
    by blast
  then show ?thesis
  proof cases
    case stop
    then show ?thesis by simp
  next
    case step
    from step(1) have t1: "offset table < length (buffer table)" "ps = buffer table ! offset table"
      "table1 = table\<lparr>offset := offset table + 1\<rparr>"
      by (simp_all add: ReadU8_Some)
    from step(2) t1 have t2: "offset table + 2 \<le> length (buffer table)"
      "table2 = table\<lparr>offset := offset table + 2\<rparr>"
      by (simp_all add: ReadU8_Some)
    from read_widths_Inr [OF step(4)] t2
    have t3: "offset table + 2 + ng \<le> length (buffer table)"
      "table3 = table\<lparr>offset := offset table + 2 + ng\<rparr>"
      by auto
    have "offset table + record_stride ng (pad_len this) \<le> length (buffer table)"
      using step(5) t3
      by (cases "0 < pad_len this") (auto simp: Skip_def record_stride_def split: if_splits)
    with step(3) t1 show ?thesis by simp
  qed
qed

lemma Parse_records_decode:
  "Parse_records ng k i l table this = (oc, this') \<Longrightarrow>
   records this' = records this
     @ records_at ng (record_stride ng (pad_len this)) (buffer table) (offset table)
         (length (records this') - length (records this))"
proof (induction k arbitrary: i l table this)
  case 0
  then show ?case by simp
next
  case (Suc k)
  from Parse_records_Suc_fits [OF Suc.prems]
  show ?case
  proof
    assume "this' = this \<and> oc \<noteq> Success"
    then show ?thesis by simp
  next
    assume fits: "offset table + record_stride ng (pad_len this) \<le> length (buffer table)
          \<and> (i = 0 \<or> l < buffer table ! offset table)"
    let ?this1 = "this\<lparr>records := records this @ [record_at ng (buffer table) (offset table)]\<rparr>"
    let ?table1 = "table\<lparr>offset := offset table + record_stride ng (pad_len this)\<rparr>"
    from fits Suc.prems
    have rest: "Parse_records ng k (Suc i) (buffer table ! offset table) ?table1 ?this1 = (oc, this')"
      by (simp only: Parse_records_step)
    from Parse_records_frame [OF rest]
    have "prefix (records ?this1) (records this')" by blast
    then have "length (records ?this1) \<le> length (records this')"
      by (rule prefix_length_le)
    then have len: "length (records this') - length (records this)
                   = Suc (length (records this') - length (records ?this1))"
      by simp
    from Suc.IH [OF rest] show ?thesis
      by (simp add: len)
  qed
qed

lemma Parse_records_unsorted:
  assumes "j < k"
    and "offset table + j * record_stride ng (pad_len this) + 2 \<le> length (buffer table)"
    and "if j = 0 then i \<noteq> 0 \<and> buffer table ! offset table \<le> l
         else buffer table ! (offset table + j * record_stride ng (pad_len this))
              \<le> buffer table ! (offset table + (j - 1) * record_stride ng (pad_len this))"
  shows "fst (Parse_records ng k i l table this) = Drop NotSorted"
  using assms
proof (induction k arbitrary: j i l table this)
  case 0
  then show ?case by simp
next
  case (Suc k)
  let ?st = "record_stride ng (pad_len this)"
  show ?case
  proof (cases "i \<noteq> 0 \<and> buffer table ! offset table \<le> l")
    case True
    have "offset table + 2 \<le> length (buffer table)"
      using Suc.prems(2) by simp
    with True have "Parse_records ng (Suc k) i l table this = (Drop NotSorted, this)"
      by (intro Parse_records_unsorted_here) simp_all
    then show ?thesis
      by (simp only: fst_conv)
  next
    case False
    with Suc.prems(3) have j: "j \<noteq> 0" by (auto split: if_splits)
    then obtain j' where j': "j = Suc j'"
      by (cases j) auto
    have "2 \<le> ?st" by (simp add: record_stride_def)
    have fits: "offset table + ?st \<le> length (buffer table)"
      using Suc.prems(2) j' by simp
    have ord: "i = 0 \<or> l < buffer table ! offset table"
      using False by auto
    let ?this1 = "this\<lparr>records := records this @ [record_at ng (buffer table) (offset table)]\<rparr>"
    let ?table1 = "table\<lparr>offset := offset table + ?st\<rparr>"
    have step: "Parse_records ng (Suc k) i l table this
                 = Parse_records ng k (Suc i) (buffer table ! offset table) ?table1 ?this1"
      using fits ord by (rule Parse_records_step)
    have "fst (Parse_records ng k (Suc i) (buffer table ! offset table) ?table1 ?this1)
            = Drop NotSorted"
    proof (rule Suc.IH [of j'])
      show "j' < k" using Suc.prems(1) j' by simp
      show "offset ?table1 + j' * record_stride ng (pad_len ?this1) + 2 \<le> length (buffer ?table1)"
        using Suc.prems(2) j' by (simp add: algebra_simps)
      show "if j' = 0 then Suc i \<noteq> 0 \<and> buffer ?table1 ! offset ?table1 \<le> buffer table ! offset table
         else buffer ?table1 ! (offset ?table1 + j' * record_stride ng (pad_len ?this1))
              \<le> buffer ?table1 ! (offset ?table1 + (j' - 1) * record_stride ng (pad_len ?this1))"
      proof (cases j')
        case 0
        with Suc.prems(3) j' show ?thesis by simp
      next
        case (Suc j'')
        with Suc.prems(3) j' show ?thesis by (simp add: algebra_simps)
      qed
    qed
    with step show ?thesis by (simp only:)
  qed
qed

text \<open>
  The three header reads leave the cursor at offset 8, and a header that passes every
  check of lines 17 to 47 hands over to the loop there. An index reported by a failing
  read is the number of records stored so far.
\<close>

lemma header_reads:
  assumes "ReadU16 (Buffer_new data) = Some (v, b1)" and "ReadS16 b1 = Some (n, b2)"
    and "ReadS32 b2 = Some (s, b3)"
  shows "b1 = \<lparr>buffer = data, offset = 2\<rparr> \<and> b2 = \<lparr>buffer = data, offset = 4\<rparr>
       \<and> b3 = \<lparr>buffer = data, offset = 8\<rparr>"
  using assms
  by (auto simp: ReadU16_def ReadS16_def ReadS32_def Buffer_new_def split: if_splits)

lemma Parse_header_ok:
  assumes "head font = Some h" and "maxp font = Some m" and "flags h AND 0x14 \<noteq> 0"
    and "ReadU16 (Buffer_new data) = Some (0, b1)" and "ReadS16 b1 = Some (n, b2)"
    and "ReadS32 b2 = Some (s, b3)" and "0 < sint n"
    and "uint (num_glyphs m) + 2 \<le> sint s"
    and "pad_conv (sint s - (uint (num_glyphs m) + 2)) \<le> 3"
  shows "Parse pad_conv font data this =
         Parse_records (unat (num_glyphs m)) (nat (sint n)) 0 0 \<lparr>buffer = data, offset = 8\<rparr>
           (this\<lparr>version := 0, size_device_record := s,
                  pad_len := pad_conv (sint s - (uint (num_glyphs m) + 2))\<rparr>)"
  using assms header_reads [OF assms(4-6)]
  by (simp add: Parse_def Let_def)

lemma Parse_records_index:
  "Parse_records ng k i l table this = (oc, this') \<Longrightarrow> i = length (records this) \<Longrightarrow>
   (\<forall>i'. oc = Error (RecordRead i') \<longrightarrow> i' = length (records this'))
   \<and> (\<forall>j i'. oc = Error (WidthRead j i') \<longrightarrow> i' = length (records this'))"
proof (induction k arbitrary: i l table this)
  case 0
  then show ?case by simp
next
  case (Suc k)
  from Parse_records_Suc [OF Suc.prems(1)]
  consider (stop) "this' = this" "oc = Error (RecordRead i) \<or> oc = Drop NotSorted
            \<or> (\<exists>j. oc = Error (WidthRead j i)) \<or> oc = Error (SkipPadding (pad_len this))"
    | (step) ps mw ws table4 where
        "Parse_records ng k (Suc i) ps table4
           (this\<lparr>records := records this
              @ [\<lparr>pixel_size = ps, max_width = mw, widths = ws\<rparr>]\<rparr>) = (oc, this')"
    by blast
  then show ?case
  proof cases
    case stop
    with Suc.prems(2) show ?thesis by auto
  next
    case step
    show ?thesis
      by (rule Suc.IH [OF step]) (simp add: Suc.prems(2))
  qed
qed

section \<open>Missing prerequisites\<close>


text \<open>
  C7. When the font has no head table or no maxp table, \<open>Parse\<close> returns the Error outcome
  (the missing-tables one, not a Drop), whatever the bytes of the hdmx data are, and
  leaves the table object untouched: no byte has been read.
\<close>

theorem Parse_missing_prerequisite:
  assumes "head font = None \<or> maxp font = None"
  shows "Parse pad_conv font data this = (Error MissingTables, this)"
  using assms by (auto simp: Parse_def Let_def split: option.splits)

theorem Parse_missing_prerequisite_witness:
  "(head font_nohead = None \<or> maxp font_nohead = None)
   \<and> Parse id font_nohead data_one_record table_indet = (Error MissingTables, table_indet)"
proof -
  have h: "head font_nohead = None \<or> maxp font_nohead = None"
    by (simp add: font_nohead_def)
  from Parse_missing_prerequisite [OF h, of id data_one_record table_indet] h show ?thesis
    by blast
qed

section \<open>The gate on the head flags\<close>

lemma flags_mask_bits: "((w :: 16 word) AND 0x14 = 0) = (\<not> bit w 2 \<and> \<not> bit w 4)"
proof -
  have "(0x14 :: 16 word) = 2 ^ 2 OR 2 ^ 4" by simp
  then have "w AND 0x14 = (w AND 2 ^ 2) OR (w AND 2 ^ 4)"
    by (simp only: bit.conj_disj_distrib)
  then show ?thesis
    by (simp only: or_eq_0_iff and_exp_eq_0_iff_not_bit)
qed

text \<open>
  C1, as stated, fails: with head and maxp present and only bit 2 of \<open>head.flags\<close> set
  (bit 4 clear), the table of the first scenario is not dropped; \<open>Parse\<close> succeeds.
\<close>

theorem Parse_flags_counterexample:
  "head font_bit2 = Some \<lparr>flags = 0x04\<rparr> \<and> maxp font_bit2 = Some \<lparr>num_glyphs = 3\<rparr>
   \<and> \<not> bit (0x04 :: 16 word) 4
   \<and> fst (Parse id font_bit2 data_one_record (new_OpenTypeHDMX table_indet)) = Success"
  by code_simp

text \<open>
  C1, amended. For every font whose head and maxp tables are present, \<open>Parse\<close> returns the
  Drop outcome of the flag check exactly when bit 2 and bit 4 of \<open>head.flags\<close> are both
  clear, that is \<open>(flags & 0x14) == 0\<close>; the table is then dropped before the header body
  is read and the table object is untouched. When at least one of the two bits is set the
  flag check lets the table through.
\<close>

theorem Parse_flags_gate:
  assumes "head font = Some h" and "maxp font = Some m"
  shows "(fst (Parse pad_conv font data this) = Drop FlagsNotSet)
           = (\<not> bit (flags h) 2 \<and> \<not> bit (flags h) 4)
       \<and> (\<not> bit (flags h) 2 \<and> \<not> bit (flags h) 4
            \<longrightarrow> Parse pad_conv font data this = (Drop FlagsNotSet, this))"
proof (cases "flags h AND 0x14 = 0")
  case True
  then have "Parse pad_conv font data this = (Drop FlagsNotSet, this)"
    using assms by (simp add: Parse_def)
  with True show ?thesis
    by (simp add: flags_mask_bits)
next
  case False
  obtain oc this' where res: "Parse pad_conv font data this = (oc, this')"
    by (cases "Parse pad_conv font data this")
  have "oc \<noteq> Drop FlagsNotSet"
    using Parse_inversion [OF res] assms False
    by (auto dest: Parse_records_outcome)
  with False res show ?thesis
    by (simp add: flags_mask_bits)
qed

theorem Parse_flags_gate_witness:
  "head font_noflags = Some \<lparr>flags = 0x03\<rparr> \<and> maxp font_noflags = Some \<lparr>num_glyphs = 3\<rparr>
   \<and> \<not> bit (flags \<lparr>flags = 0x03\<rparr>) 2 \<and> \<not> bit (flags \<lparr>flags = 0x03\<rparr>) 4
   \<and> Parse id font_noflags data_one_record (new_OpenTypeHDMX table_indet)
       = (Drop FlagsNotSet, new_OpenTypeHDMX table_indet)"
proof -
  have h: "head font_noflags = Some \<lparr>flags = 0x03\<rparr>"
    and m: "maxp font_noflags = Some \<lparr>num_glyphs = 3\<rparr>"
    by (simp_all add: font_noflags_def)
  have b: "\<not> bit (flags \<lparr>flags = 0x03\<rparr>) 2 \<and> \<not> bit (flags \<lparr>flags = 0x03\<rparr>) 4"
    by simp
  from Parse_flags_gate [OF h m, of id data_one_record "new_OpenTypeHDMX table_indet"] b h m
  show ?thesis by blast
qed

section \<open>Eligibility for serialization\<close>

text \<open>
  C8. \<open>ShouldSerialize\<close> is true if and only if the table parsed successfully and the font
  has a glyf table; for a font without a glyf table (CFF outlines) it is false even when
  \<open>Parse\<close> succeeded.
\<close>

theorem ShouldSerialize_parsed_and_glyf:
  "ShouldSerialize (fst (Parse pad_conv font data this)) font
     = (fst (Parse pad_conv font data this) = Success \<and> glyf font \<noteq> None)
   \<and> \<not> ShouldSerialize Success (font\<lparr>glyf := None\<rparr>)"
  by (simp add: ShouldSerialize_def Table_ShouldSerialize_def)

section \<open>Release of a shared table\<close>

text \<open>
  C9, as stated, fails: a font parses its hdmx table into address 0, a second font adopts
  it with \<^verbatim>\<open>ots_hdmx_reuse\<close>, and \<^verbatim>\<open>ots_hdmx_free\<close> on the second font deletes the
  object at address 0, which the first font still points at.
\<close>

theorem ots_hdmx_free_counterexample:
  "hdmx font_owner = Some 0 \<and> \<not> hdmx_reused font_owner
   \<and> hdmx font_holder = Some 0 \<and> hdmx_reused font_holder
   \<and> hdmx_valid store_parsed font_owner
   \<and> ots_hdmx_free font_holder store_parsed \<noteq> None
   \<and> \<not> hdmx_valid (the (ots_hdmx_free font_holder store_parsed)) font_owner"
  by code_simp

text \<open>
  C9, amended. A font that adopted another font's hdmx table via \<^verbatim>\<open>ots_hdmx_reuse\<close> holds
  the same pointer and has \<open>hdmx_reused\<close> set; \<^verbatim>\<open>ots_hdmx_free\<close> on that font deletes the
  table object the pointer refers to, whether or not \<open>hdmx_reused\<close> is set, and the
  sibling font's pointer then refers to no object. \<^verbatim>\<open>ots_hdmx_free\<close> itself does not
  spare a shared instance: the only record of sharing is \<open>hdmx_reused\<close>, which it does
  not read.
\<close>

theorem ots_hdmx_free_after_reuse:
  assumes "hdmx other = Some p" and "objs st p = Some this"
  shows "hdmx (ots_hdmx_reuse font other) = Some p
       \<and> hdmx_reused (ots_hdmx_reuse font other)
       \<and> ots_hdmx_free (ots_hdmx_reuse font other) st = Some (st\<lparr>objs := (objs st)(p := None)\<rparr>)
       \<and> \<not> hdmx_valid (st\<lparr>objs := (objs st)(p := None)\<rparr>) other"
  using assms by (simp add: ots_hdmx_reuse_def ots_hdmx_free_def hdmx_valid_def)

theorem ots_hdmx_free_after_reuse_witness:
  "hdmx font_owner = Some 0 \<and> objs store_parsed 0 = Some table_one_record
   \<and> hdmx (ots_hdmx_reuse font_other font_owner) = Some 0
   \<and> hdmx_reused (ots_hdmx_reuse font_other font_owner)
   \<and> ots_hdmx_free (ots_hdmx_reuse font_other font_owner) store_parsed
       = Some (store_parsed\<lparr>objs := (objs store_parsed)(0 := None)\<rparr>)
   \<and> \<not> hdmx_valid (store_parsed\<lparr>objs := (objs store_parsed)(0 := None)\<rparr>) font_owner"
proof -
  have p: "hdmx font_owner = Some 0"
    by code_simp
  have t: "objs store_parsed 0 = Some table_one_record"
    by code_simp
  from ots_hdmx_free_after_reuse [OF p t, of font_other] p t show ?thesis
    by blast
qed

section \<open>The record count\<close>

lemma Serialize_records_outcome:
  "Serialize_records pad i recs out = Some (oc, out') \<Longrightarrow> oc \<noteq> Error HeaderWrite"
  by (induction recs arbitrary: i out) (auto split: option.splits if_splits)

text \<open>
  C10. A table populated by a successful \<open>Parse\<close> has between 1 and 32767 records (the
  count was read as a signed 16-bit value and required positive), so the guard of
  \<open>Serialize\<close> on a record count above 32767 does not fire on it: when \<open>Serialize\<close>
  fails at the header, it is because the sink had no room for the eight header bytes.
\<close>

theorem Parse_record_count:
  assumes "Parse pad_conv font data (new_OpenTypeHDMX indet) = (Success, this)"
  shows "1 \<le> length (records this) \<and> length (records this) \<le> 32767
       \<and> (\<forall>out out'. Serialize this out = Some (Error HeaderWrite, out')
            \<longrightarrow> capacity out < length (written out) + 8)"
proof -
  from Parse_inversion [OF assms]
  obtain n b3 ng this0 where n: "0 < sint (n :: 16 word)"
    and loop: "Parse_records ng (nat (sint n)) 0 0 b3 this0 = (Success, this)"
    and r0: "records this0 = []"
    by (auto simp: new_OpenTypeHDMX_def)
  have len: "length (records this) = nat (sint n)"
    using Parse_records_frame [OF loop] r0 by simp
  have "sint n \<le> 32767"
    using sint_lt [of n] by simp
  with n len have range: "1 \<le> length (records this) \<and> length (records this) \<le> 32767"
    by linarith
  have "capacity out < length (written out) + 8"
    if "Serialize this out = Some (Error HeaderWrite, out')" for out out'
    using that range
    by (auto simp: Serialize_def Let_def WriteU16_def WriteS16_def WriteS32_def Write_def
                   bytesU16_def bytesS32_def
             split: option.splits if_splits dest: Serialize_records_outcome)
  with range show ?thesis by blast
qed

theorem Parse_record_count_witness:
  "Parse id font_outline data_one_record (new_OpenTypeHDMX table_indet)
     = (Success, table_one_record)
   \<and> 1 \<le> length (records table_one_record) \<and> length (records table_one_record) \<le> 32767
   \<and> Serialize table_one_record empty_sink \<noteq> Some (Error HeaderWrite, empty_sink)"
proof -
  have ok: "Parse id font_outline data_one_record (new_OpenTypeHDMX table_indet)
              = (Success, table_one_record)"
    by code_simp
  have room: "\<not> capacity empty_sink < length (written empty_sink) + 8"
    by (simp add: empty_sink_def)
  from Parse_record_count [OF ok] room ok show ?thesis
    by blast
qed

section \<open>Undersized device records\<close>

text \<open>
  C6. With head and maxp present, every input whose \<open>size_device_record\<close> field (bytes 4
  to 7) is less than \<open>num_glyphs + 2\<close> makes \<open>Parse\<close> return a Drop outcome; no record is
  stored in the table, and \<open>ShouldSerialize\<close> is false for it, so that no later
  \<open>Serialize\<close> emits it.
\<close>

theorem Parse_undersized_record_dropped:
  assumes h: "head font = Some h" and m: "maxp font = Some m"
    and s: "ReadS32 ((Buffer_new data)\<lparr>offset := 4\<rparr>) = Some (s, b)"
    and small: "sint s < uint (num_glyphs m) + 2"
  shows "is_Drop (fst (Parse pad_conv font data this))
       \<and> records (snd (Parse pad_conv font data this)) = records this
       \<and> \<not> ShouldSerialize (fst (Parse pad_conv font data this)) font"
proof -
  from s have len: "8 \<le> length data"
    by (simp add: ReadS32_def Buffer_new_def split: if_splits)
  then obtain v b1 where r1: "ReadU16 (Buffer_new data) = Some (v, (Buffer_new data)\<lparr>offset := 2\<rparr>)"
    by (simp add: ReadU16_def Buffer_new_def)
  from len obtain n where r2:
    "ReadS16 ((Buffer_new data)\<lparr>offset := 2\<rparr>) = Some (n, (Buffer_new data)\<lparr>offset := 4\<rparr>)"
    by (simp add: ReadS16_def ReadU16_def Buffer_new_def)
  have drop: "is_Drop (fst (Parse pad_conv font data this))
       \<and> records (snd (Parse pad_conv font data this)) = records this"
    using h m r1 r2 s small
    by (simp add: Parse_def Let_def)
  then have "fst (Parse pad_conv font data this) \<noteq> Success"
    by (cases "fst (Parse pad_conv font data this)") simp_all
  with drop show ?thesis
    by (simp add: ShouldSerialize_def Table_ShouldSerialize_def)
qed

theorem Parse_undersized_record_dropped_witness:
  "head font_outline = Some \<lparr>flags = 0x14\<rparr> \<and> maxp font_outline = Some \<lparr>num_glyphs = 3\<rparr>
   \<and> ReadS32 ((Buffer_new data_small_record)\<lparr>offset := 4\<rparr>)
        = Some (4, \<lparr>buffer = data_small_record, offset = 8\<rparr>)
   \<and> sint (4 :: 32 word) < uint (num_glyphs \<lparr>num_glyphs = 3\<rparr>) + 2
   \<and> is_Drop (fst (Parse id font_outline data_small_record (new_OpenTypeHDMX table_indet)))
   \<and> records (snd (Parse id font_outline data_small_record (new_OpenTypeHDMX table_indet)))
        = records (new_OpenTypeHDMX table_indet)
   \<and> \<not> ShouldSerialize
          (fst (Parse id font_outline data_small_record (new_OpenTypeHDMX table_indet)))
          font_outline"
proof -
  have h: "head font_outline = Some \<lparr>flags = 0x14\<rparr>"
    and m: "maxp font_outline = Some \<lparr>num_glyphs = 3\<rparr>"
    by (simp_all add: font_outline_def)
  have s: "ReadS32 ((Buffer_new data_small_record)\<lparr>offset := 4\<rparr>)
             = Some (4, \<lparr>buffer = data_small_record, offset = 8\<rparr>)"
    by code_simp
  have small: "sint (4 :: 32 word) < uint (num_glyphs \<lparr>num_glyphs = 3\<rparr>) + 2"
    by simp
  from Parse_undersized_record_dropped [OF h m s small, of id "new_OpenTypeHDMX table_indet"]
    h m s small
  show ?thesis by blast
qed

section \<open>Order of the records\<close>

text \<open>
  C4. In every successfully parsed table the records are strictly increasing by
  \<open>pixel_size\<close>: for every index \<open>i > 0\<close>, \<open>records[i].pixel_size > records[i-1].pixel_size\<close>.
  And every input whose header passes the checks of lines 17 to 47 and whose records
  violate the order at some position \<open>i\<close> (the two fixed bytes of record \<open>i\<close> being
  present, its \<open>pixel_size\<close> not above that of record \<open>i - 1\<close>) makes \<open>Parse\<close> return the
  Drop outcome of line 60.
\<close>

theorem Parse_records_strictly_increasing:
  assumes res: "Parse pad_conv font data (new_OpenTypeHDMX indet) = (oc, this')"
  shows "(oc = Success \<longrightarrow>
           (\<forall>i. 0 < i \<and> i < length (records this')
              \<longrightarrow> pixel_size (records this' ! (i - 1)) < pixel_size (records this' ! i)))
       \<and> (\<forall>h m n s b1 b2 b3 i.
            head font = Some h \<and> maxp font = Some m \<and> flags h AND 0x14 \<noteq> 0
            \<and> ReadU16 (Buffer_new data) = Some (0, b1) \<and> ReadS16 b1 = Some (n, b2)
            \<and> ReadS32 b2 = Some (s, b3)
            \<and> uint (num_glyphs m) + 2 \<le> sint s
            \<and> pad_conv (sint s - (uint (num_glyphs m) + 2)) \<le> 3
            \<and> 0 < i \<and> int i < sint n
            \<and> 8 + i * record_stride (unat (num_glyphs m))
                        (pad_conv (sint s - (uint (num_glyphs m) + 2))) + 2 \<le> length data
            \<and> data ! (8 + i * record_stride (unat (num_glyphs m))
                               (pad_conv (sint s - (uint (num_glyphs m) + 2))))
                \<le> data ! (8 + (i - 1) * record_stride (unat (num_glyphs m))
                               (pad_conv (sint s - (uint (num_glyphs m) + 2))))
            \<longrightarrow> oc = Drop NotSorted)"
proof (intro conjI impI allI)
  fix i
  assume ok: "oc = Success" and i: "0 < i \<and> i < length (records this')"
  have sorted: "successively (<) (map pixel_size (records this'))"
  proof -
    from Parse_inversion [OF res] ok
    obtain ng k b3 this0 where loop: "Parse_records ng k 0 0 b3 this0 = (oc, this')"
      and r0: "records this0 = []"
      by (auto simp: new_OpenTypeHDMX_def)
    from Parse_records_sorted [OF loop] r0 show ?thesis by simp
  qed
  from i obtain i' where i': "i = Suc i'" by (cases i) auto
  from successively_nth [OF sorted, of i'] i i'
  show "pixel_size (records this' ! (i - 1)) < pixel_size (records this' ! i)"
    by simp
next
  fix h :: OpenTypeHEAD and m :: OpenTypeMAXP and n :: "16 word" and s :: "32 word"
    and b1 b2 b3 :: Buffer and i :: nat
  let ?pad = "pad_conv (sint s - (uint (num_glyphs m) + 2))"
  let ?st = "record_stride (unat (num_glyphs m)) ?pad"
  assume hyp: "head font = Some h \<and> maxp font = Some m \<and> flags h AND 0x14 \<noteq> 0
            \<and> ReadU16 (Buffer_new data) = Some (0, b1) \<and> ReadS16 b1 = Some (n, b2)
            \<and> ReadS32 b2 = Some (s, b3)
            \<and> uint (num_glyphs m) + 2 \<le> sint s
            \<and> ?pad \<le> 3
            \<and> 0 < i \<and> int i < sint n
            \<and> 8 + i * ?st + 2 \<le> length data
            \<and> data ! (8 + i * ?st) \<le> data ! (8 + (i - 1) * ?st)"
  let ?start = "(new_OpenTypeHDMX indet)\<lparr>version := 0, size_device_record := s, pad_len := ?pad\<rparr>"
  from hyp have n: "0 < sint n" by linarith
  with hyp have eq: "Parse pad_conv font data (new_OpenTypeHDMX indet) =
         Parse_records (unat (num_glyphs m)) (nat (sint n)) 0 0 \<lparr>buffer = data, offset = 8\<rparr> ?start"
    by (intro Parse_header_ok) blast+
  have "fst (Parse_records (unat (num_glyphs m)) (nat (sint n)) 0 0
               \<lparr>buffer = data, offset = 8\<rparr> ?start) = Drop NotSorted"
  proof (rule Parse_records_unsorted [of i])
    show "i < nat (sint n)" using hyp by linarith
    show "offset \<lparr>buffer = data, offset = 8\<rparr>
            + i * record_stride (unat (num_glyphs m)) (pad_len ?start) + 2
          \<le> length (buffer \<lparr>buffer = data, offset = 8\<rparr>)"
      using hyp by simp
    show "if i = 0 then (0::nat) \<noteq> 0 \<and> buffer \<lparr>buffer = data, offset = 8\<rparr>
                ! offset \<lparr>buffer = data, offset = 8\<rparr> \<le> 0
         else buffer \<lparr>buffer = data, offset = 8\<rparr>
                ! (offset \<lparr>buffer = data, offset = 8\<rparr>
                   + i * record_stride (unat (num_glyphs m)) (pad_len ?start))
              \<le> buffer \<lparr>buffer = data, offset = 8\<rparr>
                ! (offset \<lparr>buffer = data, offset = 8\<rparr>
                   + (i - 1) * record_stride (unat (num_glyphs m)) (pad_len ?start))"
      using hyp by simp
  qed
  with eq res show "oc = Drop NotSorted"
    by (metis fst_conv)
qed


theorem Parse_records_strictly_increasing_witness:
  "Parse id font_outline data_two_records (new_OpenTypeHDMX table_indet)
     = (Success, table_two_records)
   \<and> pixel_size (records table_two_records ! (1 - 1)) < pixel_size (records table_two_records ! 1)
   \<and> head font_outline = Some \<lparr>flags = 0x14\<rparr> \<and> maxp font_outline = Some \<lparr>num_glyphs = 3\<rparr>
   \<and> ReadU16 (Buffer_new data_unsorted) = Some (0, \<lparr>buffer = data_unsorted, offset = 2\<rparr>)
   \<and> ReadS16 \<lparr>buffer = data_unsorted, offset = 2\<rparr>
        = Some (2, \<lparr>buffer = data_unsorted, offset = 4\<rparr>)
   \<and> ReadS32 \<lparr>buffer = data_unsorted, offset = 4\<rparr>
        = Some (5, \<lparr>buffer = data_unsorted, offset = 8\<rparr>)
   \<and> data_unsorted ! (8 + 1 * record_stride 3 0) \<le> data_unsorted ! (8 + (1 - 1) * record_stride 3 0)
   \<and> fst (Parse id font_outline data_unsorted (new_OpenTypeHDMX table_indet)) = Drop NotSorted"
proof -
  have ok: "Parse id font_outline data_two_records (new_OpenTypeHDMX table_indet)
              = (Success, table_two_records)"
    by code_simp
  have len: "0 < (1::nat) \<and> 1 < length (records table_two_records)"
    by (simp add: table_two_records_def)
  from Parse_records_strictly_increasing [OF ok] len
  have inc: "pixel_size (records table_two_records ! (1 - 1))
               < pixel_size (records table_two_records ! 1)"
    by blast
  obtain oc this' where bad:
    "Parse id font_outline data_unsorted (new_OpenTypeHDMX table_indet) = (oc, this')"
    by (cases "Parse id font_outline data_unsorted (new_OpenTypeHDMX table_indet)")
  have hdr: "head font_outline = Some \<lparr>flags = 0x14\<rparr> \<and> maxp font_outline = Some \<lparr>num_glyphs = 3\<rparr>
     \<and> ReadU16 (Buffer_new data_unsorted) = Some (0, \<lparr>buffer = data_unsorted, offset = 2\<rparr>)
     \<and> ReadS16 \<lparr>buffer = data_unsorted, offset = 2\<rparr>
          = Some (2, \<lparr>buffer = data_unsorted, offset = 4\<rparr>)
     \<and> ReadS32 \<lparr>buffer = data_unsorted, offset = 4\<rparr>
          = Some (5, \<lparr>buffer = data_unsorted, offset = 8\<rparr>)
     \<and> data_unsorted ! (8 + 1 * record_stride 3 0)
          \<le> data_unsorted ! (8 + (1 - 1) * record_stride 3 0)"
    by code_simp
  have hyp: "head font_outline = Some \<lparr>flags = 0x14\<rparr> \<and> maxp font_outline = Some \<lparr>num_glyphs = 3\<rparr>
     \<and> flags \<lparr>flags = 0x14\<rparr> AND 0x14 \<noteq> 0
     \<and> ReadU16 (Buffer_new data_unsorted) = Some (0, \<lparr>buffer = data_unsorted, offset = 2\<rparr>)
     \<and> ReadS16 \<lparr>buffer = data_unsorted, offset = 2\<rparr>
          = Some (2, \<lparr>buffer = data_unsorted, offset = 4\<rparr>)
     \<and> ReadS32 \<lparr>buffer = data_unsorted, offset = 4\<rparr>
          = Some (5, \<lparr>buffer = data_unsorted, offset = 8\<rparr>)
     \<and> uint (num_glyphs \<lparr>num_glyphs = 3\<rparr>) + 2 \<le> sint (5 :: 32 word)
     \<and> id (sint (5 :: 32 word) - (uint (num_glyphs \<lparr>num_glyphs = 3\<rparr>) + 2)) \<le> 3
     \<and> 0 < (1::nat) \<and> int 1 < sint (2 :: 16 word)
     \<and> 8 + 1 * record_stride (unat (num_glyphs \<lparr>num_glyphs = 3\<rparr>))
                  (id (sint (5 :: 32 word) - (uint (num_glyphs \<lparr>num_glyphs = 3\<rparr>) + 2))) + 2
          \<le> length data_unsorted
     \<and> data_unsorted ! (8 + 1 * record_stride (unat (num_glyphs \<lparr>num_glyphs = 3\<rparr>))
                  (id (sint (5 :: 32 word) - (uint (num_glyphs \<lparr>num_glyphs = 3\<rparr>) + 2))))
          \<le> data_unsorted ! (8 + (1 - 1) * record_stride (unat (num_glyphs \<lparr>num_glyphs = 3\<rparr>))
                  (id (sint (5 :: 32 word) - (uint (num_glyphs \<lparr>num_glyphs = 3\<rparr>) + 2))))"
    by code_simp
  from Parse_records_strictly_increasing [OF bad] hyp
  have "oc = Drop NotSorted"
    by blast
  with bad ok inc hdr show ?thesis
    by simp
qed

section \<open>The padding length\<close>




section \<open>What a failed Parse leaves in the table\<close>

text \<open>
  A first iteration that does not complete gives the same result whatever the number of
  records still expected, so a loop that fails after \<open>k\<close> records is the loop for \<open>k\<close>
  records, which succeeds, followed by one failing iteration. Before the loop, the table
  holds what the header reads assigned.
\<close>

lemma Parse_records_stops_alike:
  assumes "\<not> (offset table + record_stride ng (pad_len this) \<le> length (buffer table)
              \<and> (i = 0 \<or> l < buffer table ! offset table))"
  shows "Parse_records ng (Suc n) i l table this = Parse_records ng (Suc n') i l table this"
  using assms
  by (auto simp: Let_def ReadU8_def Skip_def record_stride_def
           split: option.splits sum.splits prod.splits if_splits dest!: read_widths_Inr)


lemma Parse_records_prefix:
  assumes "Parse_records ng n i l table this = (oc, this')" and "oc \<noteq> Success"
  shows "Parse_records ng (length (records this') - length (records this)) i l table this
           = (Success, this')
       \<and> Parse_records ng (Suc (length (records this') - length (records this))) i l table this
           = (oc, this')"
  using assms
proof (induction n arbitrary: i l table this)
  case 0
  then show ?case by simp
next
  case (Suc n)
  let ?st = "record_stride ng (pad_len this)"
  show ?case
  proof (cases "offset table + ?st \<le> length (buffer table)
                \<and> (i = 0 \<or> l < buffer table ! offset table)")
    case True
    let ?this1 = "this\<lparr>records := records this @ [record_at ng (buffer table) (offset table)]\<rparr>"
    let ?table1 = "table\<lparr>offset := offset table + ?st\<rparr>"
    let ?ps = "buffer table ! offset table"
    from True have fits: "offset table + ?st \<le> length (buffer table)"
      and ord: "i = 0 \<or> l < buffer table ! offset table"
      by simp_all
    note step = Parse_records_step [OF fits ord]
    from Suc.prems(1) have rest: "Parse_records ng n (Suc i) ?ps ?table1 ?this1 = (oc, this')"
      by (simp only: step)
    from Parse_records_frame [OF rest]
    have "prefix (records ?this1) (records this')" by blast
    then have "length (records ?this1) \<le> length (records this')"
      by (rule prefix_length_le)
    then have len: "length (records this') - length (records this)
                   = Suc (length (records this') - length (records ?this1))"
      by simp
    from Suc.IH [OF rest Suc.prems(2)] show ?thesis
      by (simp only: len step)
  next
    case False
    from Parse_records_Suc_fits [OF Suc.prems(1)] False
    have same: "this' = this" by blast
    have "Parse_records ng (Suc 0) i l table this = Parse_records ng (Suc n) i l table this"
      using False by (rule Parse_records_stops_alike)
    with Suc.prems(1) same show ?thesis
      by simp
  qed
qed

lemma header_fields_iff:
  "header_fields data v n s \<longleftrightarrow>
   (\<exists>b1 b2 b3. ReadU16 (Buffer_new data) = Some (v, b1) \<and> ReadS16 b1 = Some (n, b2)
      \<and> ReadS32 b2 = Some (s, b3))"
proof
  assume "header_fields data v n s"
  then show "\<exists>b1 b2 b3. ReadU16 (Buffer_new data) = Some (v, b1) \<and> ReadS16 b1 = Some (n, b2)
      \<and> ReadS32 b2 = Some (s, b3)"
    by (auto simp: header_fields_def Buffer_new_def)
next
  assume "\<exists>b1 b2 b3. ReadU16 (Buffer_new data) = Some (v, b1) \<and> ReadS16 b1 = Some (n, b2)
      \<and> ReadS32 b2 = Some (s, b3)"
  then obtain b1 b2 b3 where r: "ReadU16 (Buffer_new data) = Some (v, b1)"
    "ReadS16 b1 = Some (n, b2)" "ReadS32 b2 = Some (s, b3)"
    by blast
  from header_reads [OF r] r show "header_fields data v n s"
    by (simp add: header_fields_def Buffer_new_def)
qed

lemma header_short:
  assumes "ReadU16 (Buffer_new data) = None
           \<or> (\<exists>v b1. ReadU16 (Buffer_new data) = Some (v, b1)
                \<and> (ReadS16 b1 = None
                    \<or> (\<exists>n b2. ReadS16 b1 = Some (n, b2) \<and> ReadS32 b2 = None)))"
  shows "length data < 8"
  using assms
  by (auto simp: ReadU16_def ReadS16_def ReadS32_def Buffer_new_def split: if_splits)

lemma Parse_before_loop:
  assumes "Parse pad_conv font data this = (oc, this')"
  shows "(oc = Error MissingTables \<or> oc = Drop FlagsNotSet \<longrightarrow> this' = this)
       \<and> (oc = Error HeaderRead \<longrightarrow>
            length data < 8
            \<and> (case ReadU16 (Buffer_new data) of
                 None \<Rightarrow> this' = this
               | Some (v, b) \<Rightarrow> this' = this\<lparr>version := v\<rparr>))
       \<and> ((\<exists>v. oc = Drop (BadVersion v)) \<or> (\<exists>n. oc = Drop (BadNumRecs n))
           \<or> (\<exists>s. oc = Drop (BadSizeDeviceRecord s))
            \<longrightarrow> (\<exists>v n s. header_fields data v n s
                   \<and> this' = this\<lparr>version := v, size_device_record := s\<rparr>))
       \<and> (\<forall>p. oc = Error (BadPadding p) \<longrightarrow>
            (\<exists>v n s. header_fields data v n s
               \<and> this' = this\<lparr>version := v, size_device_record := s, pad_len := p\<rparr>))"
proof (intro conjI impI allI)
  assume "oc = Error MissingTables \<or> oc = Drop FlagsNotSet"
  with assms show "this' = this"
    by (auto simp: Parse_def Let_def split: option.splits if_splits prod.splits
             dest: Parse_records_outcome)
next
  assume hr: "oc = Error HeaderRead"
  with assms have "ReadU16 (Buffer_new data) = None
           \<or> (\<exists>v b1. ReadU16 (Buffer_new data) = Some (v, b1)
                \<and> (ReadS16 b1 = None
                    \<or> (\<exists>n b2. ReadS16 b1 = Some (n, b2) \<and> ReadS32 b2 = None)))"
    by (auto simp: Parse_def Let_def split: option.splits if_splits prod.splits
             dest: Parse_records_outcome)
  then show "length data < 8" by (rule header_short)
  from assms hr show "case ReadU16 (Buffer_new data) of
                 None \<Rightarrow> this' = this
               | Some (v, b) \<Rightarrow> this' = this\<lparr>version := v\<rparr>"
    by (auto simp: Parse_def Let_def split: option.splits if_splits prod.splits
             dest: Parse_records_outcome)
next
  assume "(\<exists>v. oc = Drop (BadVersion v)) \<or> (\<exists>n. oc = Drop (BadNumRecs n))
           \<or> (\<exists>s. oc = Drop (BadSizeDeviceRecord s))"
  with assms show "\<exists>v n s. header_fields data v n s
                   \<and> this' = this\<lparr>version := v, size_device_record := s\<rparr>"
    by (auto simp: Parse_def Let_def header_fields_iff
             split: option.splits if_splits prod.splits dest: Parse_records_outcome)
next
  fix p
  assume "oc = Error (BadPadding p)"
  with assms show "\<exists>v n s. header_fields data v n s
               \<and> this' = this\<lparr>version := v, size_device_record := s, pad_len := p\<rparr>"
    by (auto simp: Parse_def Let_def header_fields_iff
             split: option.splits if_splits prod.splits dest: Parse_records_outcome)
qed


text \<open>
  C2, as stated, fails: on the input with two records out of order \<open>Parse\<close> returns a Drop
  outcome and the table keeps the first record.
\<close>

theorem Parse_failure_counterexample:
  "Parse id font_outline data_unsorted (new_OpenTypeHDMX table_indet)
     = (Drop NotSorted, table_unsorted_left)
   \<and> records table_unsorted_left = [\<lparr>pixel_size = 12, max_width = 10, widths = [9, 9, 8]\<rparr>]
   \<and> records table_unsorted_left \<noteq> []"
  by code_simp

text \<open>
  C2, amended. A failed \<open>Parse\<close> fails with one of the outcomes of lines 18 to 75 and
  leaves the table as follows; the failure is told by the outcome only.

  Before the record loop, \<open>records\<close> is left empty and the scalar members hold what was
  assigned before the failing check: nothing for a missing prerequisite or the flag gate;
  \<open>version\<close> alone for a short header whose first field was read; \<open>version\<close> and
  \<open>size_device_record\<close> for a bad version, record count or record size; those two and
  \<open>pad_len\<close> for bad padding.

  At a record inside the loop (short read, order, short padding), with \<open>k\<close> the number of
  records left in the table, which is the index a failing read reports and is below
  \<open>num_recs\<close>: the table has \<open>version\<close> 0, \<open>size_device_record\<close> and \<open>pad_len\<close> from the
  header, and \<open>records\<close> holding the first \<open>k\<close> records of the input. It is the table
  that the loop run for \<open>k\<close> records leaves on success, and the loop run for \<open>k + 1\<close>
  records fails with the same outcome and the same table.
\<close>

theorem Parse_failure_leaves_prefix:
  assumes res: "Parse pad_conv font data (new_OpenTypeHDMX indet) = (oc, this')"
    and fail: "oc \<noteq> Success"
  shows "(oc = Error MissingTables \<or> oc = Drop FlagsNotSet \<or> oc = Error HeaderRead
          \<or> (\<exists>v. oc = Drop (BadVersion v)) \<or> (\<exists>n. oc = Drop (BadNumRecs n))
          \<or> (\<exists>s. oc = Drop (BadSizeDeviceRecord s)) \<or> (\<exists>p. oc = Error (BadPadding p))
          \<or> oc = Drop NotSorted \<or> oc = Error (RecordRead (length (records this')))
          \<or> (\<exists>j. oc = Error (WidthRead j (length (records this'))))
          \<or> oc = Error (SkipPadding (pad_len this')))
       \<and> (oc = Error MissingTables \<or> oc = Drop FlagsNotSet \<longrightarrow> this' = new_OpenTypeHDMX indet)
       \<and> (oc = Error HeaderRead \<longrightarrow>
            length data < 8
            \<and> (case ReadU16 (Buffer_new data) of
                 None \<Rightarrow> this' = new_OpenTypeHDMX indet
               | Some (v, b) \<Rightarrow> this' = (new_OpenTypeHDMX indet)\<lparr>version := v\<rparr>))
       \<and> ((\<exists>v. oc = Drop (BadVersion v)) \<or> (\<exists>n. oc = Drop (BadNumRecs n))
           \<or> (\<exists>s. oc = Drop (BadSizeDeviceRecord s))
            \<longrightarrow> (\<exists>v n s. header_fields data v n s
                   \<and> this' = (new_OpenTypeHDMX indet)\<lparr>version := v, size_device_record := s\<rparr>))
       \<and> (\<forall>p. oc = Error (BadPadding p) \<longrightarrow>
            (\<exists>v n s. header_fields data v n s
               \<and> this' = (new_OpenTypeHDMX indet)
                           \<lparr>version := v, size_device_record := s, pad_len := p\<rparr>))
       \<and> (oc = Error MissingTables \<or> oc = Drop FlagsNotSet \<or> oc = Error HeaderRead
          \<or> (\<exists>v. oc = Drop (BadVersion v)) \<or> (\<exists>n. oc = Drop (BadNumRecs n))
          \<or> (\<exists>s. oc = Drop (BadSizeDeviceRecord s)) \<or> (\<exists>p. oc = Error (BadPadding p))
          \<longrightarrow> records this' = [])
       \<and> (oc = Drop NotSorted \<or> (\<exists>i. oc = Error (RecordRead i))
          \<or> (\<exists>j i. oc = Error (WidthRead j i)) \<or> (\<exists>p. oc = Error (SkipPadding p))
          \<longrightarrow> (\<exists>m n s. maxp font = Some m \<and> header_fields data 0 n s
              \<and> int (length (records this')) < sint n
              \<and> this' = (new_OpenTypeHDMX indet)\<lparr>version := 0, size_device_record := s,
                     pad_len := pad_conv (sint s - (uint (num_glyphs m) + 2)),
                     records := records_at (unat (num_glyphs m))
                       (record_stride (unat (num_glyphs m))
                          (pad_conv (sint s - (uint (num_glyphs m) + 2))))
                       data 8 (length (records this'))\<rparr>
              \<and> Parse_records (unat (num_glyphs m)) (length (records this')) 0 0
                   \<lparr>buffer = data, offset = 8\<rparr>
                   ((new_OpenTypeHDMX indet)\<lparr>version := 0, size_device_record := s,
                      pad_len := pad_conv (sint s - (uint (num_glyphs m) + 2))\<rparr>)
                 = (Success, this')
              \<and> Parse_records (unat (num_glyphs m)) (Suc (length (records this'))) 0 0
                   \<lparr>buffer = data, offset = 8\<rparr>
                   ((new_OpenTypeHDMX indet)\<lparr>version := 0, size_device_record := s,
                      pad_len := pad_conv (sint s - (uint (num_glyphs m) + 2))\<rparr>)
                 = (oc, this')))"
proof -
  note early = Parse_before_loop [OF res]
  have r0: "records (new_OpenTypeHDMX indet) = []"
    by (simp add: new_OpenTypeHDMX_def)
  from Parse_inversion [OF res]
  consider (before) "records this' = []"
      "oc = Error MissingTables \<or> oc = Drop FlagsNotSet \<or> oc = Error HeaderRead
           \<or> (\<exists>v. oc = Drop (BadVersion v)) \<or> (\<exists>n. oc = Drop (BadNumRecs n))
           \<or> (\<exists>s. oc = Drop (BadSizeDeviceRecord s)) \<or> (\<exists>p. oc = Error (BadPadding p))"
    | (loop) m n s b1 b2 b3 where
        "maxp font = Some m"
        "ReadU16 (Buffer_new data) = Some (0, b1)" "ReadS16 b1 = Some (n, b2)"
        "ReadS32 b2 = Some (s, b3)" "0 < sint n"
        "Parse_records (unat (num_glyphs m)) (nat (sint n)) 0 0 b3
           ((new_OpenTypeHDMX indet)\<lparr>version := 0, size_device_record := s,
                  pad_len := pad_conv (sint s - (uint (num_glyphs m) + 2))\<rparr>) = (oc, this')"
    using r0 by auto
  then show ?thesis
  proof cases
    case before
    with early show ?thesis
      by auto
  next
    case loop
    let ?ng = "unat (num_glyphs m)"
    let ?pad = "pad_conv (sint s - (uint (num_glyphs m) + 2))"
    let ?start = "(new_OpenTypeHDMX indet)\<lparr>version := 0, size_device_record := s,
                  pad_len := ?pad\<rparr>"
    let ?k = "length (records this')"
    have s0: "records ?start = []" by (simp add: new_OpenTypeHDMX_def)
    from header_reads [OF loop(2-4)] have b3: "b3 = \<lparr>buffer = data, offset = 8\<rparr>"
      by simp
    have hf: "header_fields data 0 n s"
      using loop(2-4) by (auto simp: header_fields_iff)
    note run = loop(6) [unfolded b3]
    from Parse_records_outcome [OF run] fail
    have inloop: "oc = Drop NotSorted \<or> (\<exists>i'. oc = Error (RecordRead i'))
       \<or> (\<exists>j i'. oc = Error (WidthRead j i')) \<or> oc = Error (SkipPadding (pad_len ?start))"
      by blast
    from Parse_records_frame [OF run] fail s0
    have frame: "version this' = 0" "size_device_record this' = s" "pad_len this' = ?pad"
      "?k < nat (sint n)"
      by simp_all
    from Parse_records_index [OF run] s0
    have idx: "(\<forall>i'. oc = Error (RecordRead i') \<longrightarrow> i' = ?k)
       \<and> (\<forall>j i'. oc = Error (WidthRead j i') \<longrightarrow> i' = ?k)"
      by simp
    from Parse_records_decode [OF run] s0
    have dec: "records this' = records_at ?ng (record_stride ?ng ?pad) data 8 ?k"
      by simp
    from Parse_records_prefix [OF run fail] s0
    have pre: "Parse_records ?ng ?k 0 0 \<lparr>buffer = data, offset = 8\<rparr> ?start = (Success, this')"
      "Parse_records ?ng (Suc ?k) 0 0 \<lparr>buffer = data, offset = 8\<rparr> ?start = (oc, this')"
      by simp_all
    have cnt: "int ?k < sint n"
      using frame(4) loop(5) by linarith
    have whole: "this' = (new_OpenTypeHDMX indet)\<lparr>version := 0, size_device_record := s,
                     pad_len := ?pad,
                     records := records_at ?ng (record_stride ?ng ?pad) data 8 ?k\<rparr>"
      using frame(1-3) dec by (intro OpenTypeHDMX.equality) simp_all
    have main: "(\<exists>m n s. maxp font = Some m \<and> header_fields data 0 n s
              \<and> int (length (records this')) < sint n
              \<and> this' = (new_OpenTypeHDMX indet)\<lparr>version := 0, size_device_record := s,
                     pad_len := pad_conv (sint s - (uint (num_glyphs m) + 2)),
                     records := records_at (unat (num_glyphs m))
                       (record_stride (unat (num_glyphs m))
                          (pad_conv (sint s - (uint (num_glyphs m) + 2))))
                       data 8 (length (records this'))\<rparr>
              \<and> Parse_records (unat (num_glyphs m)) (length (records this')) 0 0
                   \<lparr>buffer = data, offset = 8\<rparr>
                   ((new_OpenTypeHDMX indet)\<lparr>version := 0, size_device_record := s,
                      pad_len := pad_conv (sint s - (uint (num_glyphs m) + 2))\<rparr>)
                 = (Success, this')
              \<and> Parse_records (unat (num_glyphs m)) (Suc (length (records this'))) 0 0
                   \<lparr>buffer = data, offset = 8\<rparr>
                   ((new_OpenTypeHDMX indet)\<lparr>version := 0, size_device_record := s,
                      pad_len := pad_conv (sint s - (uint (num_glyphs m) + 2))\<rparr>)
                 = (oc, this'))"
      using loop(1) hf cnt whole pre by blast
    from inloop idx frame(3) main show ?thesis
      by auto
  qed
qed


theorem Parse_failure_leaves_prefix_witness:
  "Parse id font_outline data_unsorted (new_OpenTypeHDMX table_indet)
     = (Drop NotSorted, table_unsorted_left)
   \<and> Drop NotSorted \<noteq> Success
   \<and> length (records table_unsorted_left) = 1
   \<and> (\<exists>m n s. maxp font_outline = Some m \<and> header_fields data_unsorted 0 n s
              \<and> int (length (records table_unsorted_left)) < sint n
              \<and> table_unsorted_left = (new_OpenTypeHDMX table_indet)\<lparr>version := 0, size_device_record := s,
                     pad_len := id (sint s - (uint (num_glyphs m) + 2)),
                     records := records_at (unat (num_glyphs m))
                       (record_stride (unat (num_glyphs m))
                          (id (sint s - (uint (num_glyphs m) + 2))))
                       data_unsorted 8 (length (records table_unsorted_left))\<rparr>
              \<and> Parse_records (unat (num_glyphs m)) (length (records table_unsorted_left)) 0 0
                   \<lparr>buffer = data_unsorted, offset = 8\<rparr>
                   ((new_OpenTypeHDMX table_indet)\<lparr>version := 0, size_device_record := s,
                      pad_len := id (sint s - (uint (num_glyphs m) + 2))\<rparr>)
                 = (Success, table_unsorted_left)
              \<and> Parse_records (unat (num_glyphs m)) (Suc (length (records table_unsorted_left))) 0 0
                   \<lparr>buffer = data_unsorted, offset = 8\<rparr>
                   ((new_OpenTypeHDMX table_indet)\<lparr>version := 0, size_device_record := s,
                      pad_len := id (sint s - (uint (num_glyphs m) + 2))\<rparr>)
                 = (Drop NotSorted, table_unsorted_left))
   \<and> Parse id font_outline data_small_record (new_OpenTypeHDMX table_indet)
       = (Drop (BadSizeDeviceRecord 4), table_small_left)
   \<and> Drop (BadSizeDeviceRecord 4) \<noteq> Success
   \<and> records table_small_left = []
   \<and> (\<exists>v n s. header_fields data_small_record v n s
         \<and> table_small_left
             = (new_OpenTypeHDMX table_indet)\<lparr>version := v, size_device_record := s\<rparr>)"
proof -
  have bad: "Parse id font_outline data_unsorted (new_OpenTypeHDMX table_indet)
               = (Drop NotSorted, table_unsorted_left)"
    by code_simp
  have fail: "Drop NotSorted \<noteq> Success"
    by simp
  have one: "length (records table_unsorted_left) = 1"
    by (simp add: table_unsorted_left_def)
  have small: "Parse id font_outline data_small_record (new_OpenTypeHDMX table_indet)
                 = (Drop (BadSizeDeviceRecord 4), table_small_left)"
    by code_simp
  have fail': "Drop (BadSizeDeviceRecord 4) \<noteq> Success"
    by simp
  from Parse_failure_leaves_prefix [OF bad fail]
  have loop: "(\<exists>m n s. maxp font_outline = Some m \<and> header_fields data_unsorted 0 n s
              \<and> int (length (records table_unsorted_left)) < sint n
              \<and> table_unsorted_left = (new_OpenTypeHDMX table_indet)\<lparr>version := 0, size_device_record := s,
                     pad_len := id (sint s - (uint (num_glyphs m) + 2)),
                     records := records_at (unat (num_glyphs m))
                       (record_stride (unat (num_glyphs m))
                          (id (sint s - (uint (num_glyphs m) + 2))))
                       data_unsorted 8 (length (records table_unsorted_left))\<rparr>
              \<and> Parse_records (unat (num_glyphs m)) (length (records table_unsorted_left)) 0 0
                   \<lparr>buffer = data_unsorted, offset = 8\<rparr>
                   ((new_OpenTypeHDMX table_indet)\<lparr>version := 0, size_device_record := s,
                      pad_len := id (sint s - (uint (num_glyphs m) + 2))\<rparr>)
                 = (Success, table_unsorted_left)
              \<and> Parse_records (unat (num_glyphs m)) (Suc (length (records table_unsorted_left))) 0 0
                   \<lparr>buffer = data_unsorted, offset = 8\<rparr>
                   ((new_OpenTypeHDMX table_indet)\<lparr>version := 0, size_device_record := s,
                      pad_len := id (sint s - (uint (num_glyphs m) + 2))\<rparr>)
                 = (Drop NotSorted, table_unsorted_left))"
    by blast
  from Parse_failure_leaves_prefix [OF small fail']
  have early: "records table_small_left = []
     \<and> (\<exists>v n s. header_fields data_small_record v n s
         \<and> table_small_left
             = (new_OpenTypeHDMX table_indet)\<lparr>version := v, size_device_record := s\<rparr>)"
    by blast
  from bad fail one small fail' loop early show ?thesis
    by blast
qed

section \<open>Serializing and parsing again\<close>

text \<open>
  The big-endian reads return what the typed writes wrote; \<open>Serialize\<close>, when no write
  fails and every record has a width, appends exactly \<open>table_bytes\<close>; and the loop of
  \<open>Parse\<close> reads back a sequence of records written with their padding, provided each
  has \<open>num_glyphs\<close> widths and the pixel sizes increase.
\<close>

lemma U16_bytes_back:
  "push_bit 8 (ucast (ucast (drop_bit 8 v) :: 8 word)) OR ucast (ucast v :: 8 word) = (v :: 16 word)"
  by (rule bit_word_eqI) (auto simp: bit_simps)

lemma S32_bytes_back:
  "push_bit 24 (ucast (ucast (drop_bit 24 v) :: 8 word))
   OR push_bit 16 (ucast (ucast (drop_bit 16 v) :: 8 word))
   OR push_bit 8 (ucast (ucast (drop_bit 8 v) :: 8 word))
   OR ucast (ucast v :: 8 word) = (v :: 32 word)"
proof (rule bit_word_eqI)
  fix n
  assume "n < LENGTH(32)"
  consider "n < 8" | "8 \<le> n" "n < 16" | "16 \<le> n" "n < 24" | "24 \<le> n"
    by linarith
  then show "bit (push_bit 24 (ucast (ucast (drop_bit 24 v) :: 8 word))
                  OR push_bit 16 (ucast (ucast (drop_bit 16 v) :: 8 word))
                  OR push_bit 8 (ucast (ucast (drop_bit 8 v) :: 8 word))
                  OR ucast (ucast v :: 8 word) :: 32 word) n = bit v n"
    using \<open>n < LENGTH(32)\<close> by cases (auto simp: bit_simps)
qed

lemma ReadU16_bytes:
  "drop (offset b) (buffer b) = bytesU16 v @ rest \<Longrightarrow>
   ReadU16 b = Some (v, b\<lparr>offset := offset b + 2\<rparr>)"
proof -
  assume d: "drop (offset b) (buffer b) = bytesU16 v @ rest"
  then have "length (drop (offset b) (buffer b)) \<ge> 2"
    by (simp add: bytesU16_def)
  then have len: "offset b + 2 \<le> length (buffer b)" by simp
  have "buffer b ! offset b = (drop (offset b) (buffer b)) ! 0"
    "buffer b ! (offset b + 1) = (drop (offset b) (buffer b)) ! 1"
    using len by simp_all
  then have "buffer b ! offset b = ucast (drop_bit 8 v)" "buffer b ! (offset b + 1) = ucast v"
    by (simp_all add: d bytesU16_def)
  with len show ?thesis
    by (simp add: ReadU16_def U16_bytes_back)
qed

lemma ReadS32_bytes:
  "drop (offset b) (buffer b) = bytesS32 v @ rest \<Longrightarrow>
   ReadS32 b = Some (v, b\<lparr>offset := offset b + 4\<rparr>)"
proof -
  assume d: "drop (offset b) (buffer b) = bytesS32 v @ rest"
  then have "length (drop (offset b) (buffer b)) \<ge> 4"
    by (simp add: bytesS32_def)
  then have len: "offset b + 4 \<le> length (buffer b)" by simp
  have "buffer b ! offset b = (drop (offset b) (buffer b)) ! 0"
    "buffer b ! (offset b + 1) = (drop (offset b) (buffer b)) ! 1"
    "buffer b ! (offset b + 2) = (drop (offset b) (buffer b)) ! 2"
    "buffer b ! (offset b + 3) = (drop (offset b) (buffer b)) ! 3"
    using len by simp_all
  then have "buffer b ! offset b = ucast (drop_bit 24 v)"
    "buffer b ! (offset b + 1) = ucast (drop_bit 16 v)"
    "buffer b ! (offset b + 2) = ucast (drop_bit 8 v)"
    "buffer b ! (offset b + 3) = ucast v"
    by (simp_all add: d bytesS32_def)
  with len show ?thesis
    by (simp add: ReadS32_def S32_bytes_back)
qed


lemma Serialize_records_written:
  "Serialize_records pad i recs out = Some (Success, out') \<Longrightarrow>
   out' = out\<lparr>written := written out @ concat (map (record_bytes pad) recs)\<rparr>"
proof (induction recs arbitrary: i out)
  case Nil
  then show ?case by simp
next
  case (Cons r recs)
  from Cons.prems show ?case
    by (auto simp: Write_def record_bytes_def split: option.splits if_splits
             dest!: Cons.IH)
qed

lemma Serialize_records_room:
  "pad \<le> 4 \<Longrightarrow>
   length (written out) + length (concat (map (record_bytes pad) recs)) \<le> capacity out \<Longrightarrow>
   \<forall>r \<in> set recs. widths r \<noteq> [] \<Longrightarrow>
   Serialize_records pad i recs out
     = Some (Success, out\<lparr>written := written out @ concat (map (record_bytes pad) recs)\<rparr>)"
proof (induction recs arbitrary: i out)
  case Nil
  then show ?case by simp
next
  case (Cons r recs)
  let ?out1 = "out\<lparr>written := written out @ record_bytes pad r\<rparr>"
  from Cons.prems(2)
  have room: "length (written ?out1) + length (concat (map (record_bytes pad) recs))
                \<le> capacity ?out1"
    by simp
  have rest: "\<forall>r \<in> set recs. widths r \<noteq> []"
    using Cons.prems(3) by simp
  have step: "Serialize_records pad i (r # recs) out = Serialize_records pad (Suc i) recs ?out1"
    using Cons.prems by (auto simp: Write_def record_bytes_def)
  show ?case
    by (simp only: step Cons.IH [OF Cons.prems(1) room rest]) simp
qed

lemma Serialize_written:
  "Serialize this out = Some (Success, out') \<Longrightarrow>
   out' = out\<lparr>written := written out @ table_bytes this\<rparr>"
  by (auto simp: Serialize_def Let_def WriteU16_def WriteS16_def WriteS32_def Write_def
                 table_bytes_def
           split: option.splits if_splits dest!: Serialize_records_written)

lemma Serialize_room:
  assumes "length (records this) \<le> 32767" and "pad_len this \<le> 4"
    and "length (written out) + length (table_bytes this) \<le> capacity out"
    and "\<forall>r \<in> set (records this). widths r \<noteq> []"
  shows "Serialize this out = Some (Success, out\<lparr>written := written out @ table_bytes this\<rparr>)"
proof -
  let ?hdr = "bytesU16 (version this) @ bytesU16 (word_of_nat (length (records this)))
              @ bytesS32 (size_device_record this)"
  let ?out3 = "out\<lparr>written := written out @ ?hdr\<rparr>"
  have hl: "length ?hdr = 8" by (simp add: bytesU16_def bytesS32_def)
  from assms(3) hl
  have room: "length (written ?out3)
                + length (concat (map (record_bytes (pad_len this)) (records this)))
              \<le> capacity ?out3"
    by (simp add: table_bytes_def)
  have "Serialize this out = Serialize_records (pad_len this) 0 (records this) ?out3"
    using assms(1,3) hl
    by (simp add: Serialize_def Let_def WriteU16_def WriteS16_def WriteS32_def Write_def
                  table_bytes_def bytesU16_def bytesS32_def)
  then show ?thesis
    by (simp add: Serialize_records_room [OF assms(2) room assms(4)] table_bytes_def)
qed


lemma record_at_bytes:
  assumes d: "drop pos data = record_bytes pad r @ rest" and w: "length (widths r) = ng"
  shows "record_at ng data pos = r" and "data ! pos = pixel_size r"
    and "pos + record_stride ng pad \<le> length data"
    and "drop (pos + record_stride ng pad) data = rest"
proof -
  have len: "length (record_bytes pad r) = record_stride ng pad"
    using w by (simp add: record_bytes_def record_stride_def)
  have two: "2 \<le> record_stride ng pad" by (simp add: record_stride_def)
  from d have "length (drop pos data) \<ge> record_stride ng pad"
    using len by simp
  with two show fits: "pos + record_stride ng pad \<le> length data"
    by simp
  from two fits have p2: "pos + 2 \<le> length data" by linarith
  have "data ! pos = drop pos data ! 0" "data ! (pos + 1) = drop pos data ! 1"
    using p2 by simp_all
  then have ps: "data ! pos = pixel_size r" and mw: "data ! (pos + 1) = max_width r"
    by (simp_all add: d record_bytes_def)
  show "data ! pos = pixel_size r" by (rule ps)
  have "drop (pos + 2) data = drop 2 (drop pos data)"
    by (simp add: add.commute)
  then have "take ng (drop (pos + 2) data) = widths r"
    using w by (simp add: d record_bytes_def)
  with ps mw show "record_at ng data pos = r"
    by (simp add: record_at_def)
  have "drop (pos + record_stride ng pad) data = drop (record_stride ng pad) (drop pos data)"
    by (simp add: add.commute)
  then show "drop (pos + record_stride ng pad) data = rest"
    using len by (simp add: d)
qed

lemma Parse_records_encoded:
  assumes "drop (offset table) (buffer table)
             = concat (map (record_bytes (pad_len this)) recs) @ rest"
    and "\<forall>r \<in> set recs. length (widths r) = ng"
    and "successively (<) (map pixel_size recs)"
    and "recs = [] \<or> i = 0 \<or> l < pixel_size (hd recs)"
  shows "Parse_records ng (length recs) i l table this
           = (Success, this\<lparr>records := records this @ recs\<rparr>)"
  using assms
proof (induction recs arbitrary: i l table this)
  case Nil
  show ?case by simp
next
  case (Cons r recs)
  let ?pad = "pad_len this"
  let ?st = "record_stride ng ?pad"
  let ?table1 = "table\<lparr>offset := offset table + ?st\<rparr>"
  let ?this1 = "this\<lparr>records := records this @ [r]\<rparr>"
  from Cons.prems(1)
  have d: "drop (offset table) (buffer table)
             = record_bytes ?pad r @ (concat (map (record_bytes ?pad) recs) @ rest)"
    by simp
  from Cons.prems(2) have w: "length (widths r) = ng" by simp
  note at = record_at_bytes [OF d w]
  have ord: "i = 0 \<or> l < buffer table ! offset table"
    using Cons.prems(4) at(2) by simp
  have step: "Parse_records ng (Suc (length recs)) i l table this
                = Parse_records ng (length recs) (Suc i) (pixel_size r) ?table1 ?this1"
    using Parse_records_step [OF at(3) ord, of "length recs"] at(1,2) by simp
  have "Parse_records ng (length recs) (Suc i) (pixel_size r) ?table1 ?this1
          = (Success, ?this1\<lparr>records := records ?this1 @ recs\<rparr>)"
  proof (rule Cons.IH)
    show "drop (offset ?table1) (buffer ?table1)
            = concat (map (record_bytes (pad_len ?this1)) recs) @ rest"
      using at(4) by simp
    show "\<forall>r \<in> set recs. length (widths r) = ng"
      using Cons.prems(2) by simp
    show "successively (<) (map pixel_size recs)"
      using Cons.prems(3) by (auto simp: successively_Cons)
    show "recs = [] \<or> Suc i = 0 \<or> pixel_size r < pixel_size (hd recs)"
      using Cons.prems(3) by (cases recs) (auto simp: successively_Cons)
  qed
  with step show ?case by simp
qed


lemma Parse_table_bytes:
  assumes parse: "Parse pad_conv font data (new_OpenTypeHDMX indet) = (Success, this)"
  shows "Parse pad_conv font (table_bytes this) (new_OpenTypeHDMX indet') = (Success, this)"
proof -
  from Parse_inversion [OF parse]
  obtain h m n s b3 where h: "head font = Some h" and m: "maxp font = Some m"
    and fl: "flags h AND 0x14 \<noteq> 0" and n: "0 < sint (n :: 16 word)"
    and lo: "uint (num_glyphs m) + 2 \<le> sint (s :: 32 word)"
    and hi: "pad_conv (sint s - (uint (num_glyphs m) + 2)) \<le> 3"
    and loop: "Parse_records (unat (num_glyphs m)) (nat (sint n)) 0 0 b3
                 ((new_OpenTypeHDMX indet)\<lparr>version := 0, size_device_record := s,
                    pad_len := pad_conv (sint s - (uint (num_glyphs m) + 2))\<rparr>) = (Success, this)"
    by auto
  let ?pad = "pad_conv (sint s - (uint (num_glyphs m) + 2))"
  let ?start = "(new_OpenTypeHDMX indet)\<lparr>version := 0, size_device_record := s, pad_len := ?pad\<rparr>"
  let ?start' = "(new_OpenTypeHDMX indet')\<lparr>version := 0, size_device_record := s, pad_len := ?pad\<rparr>"
  have r0: "records ?start = []" by (simp add: new_OpenTypeHDMX_def)
  from Parse_records_frame [OF loop] r0
  have fr: "version this = 0" "size_device_record this = s" "pad_len this = ?pad"
    "length (records this) = nat (sint n)"
    by simp_all
  from Parse_records_sorted [OF loop] r0
  have sorted: "successively (<) (map pixel_size (records this))" by simp
  from Parse_records_widths [OF loop] r0
  have wd: "\<forall>r \<in> set (records this). length (widths r) = unat (num_glyphs m)" by simp
  have cnt: "(word_of_nat (length (records this)) :: 16 word) = n"
  proof -
    have "(word_of_nat (nat (sint n)) :: 16 word) = word_of_int (sint n)"
      using n by (simp add: of_nat_nat)
    then show ?thesis
      using fr(4) by simp
  qed
  let ?data = "table_bytes this"
  let ?body = "concat (map (record_bytes ?pad) (records this))"
  have bytes: "?data = bytesU16 0 @ bytesU16 n @ bytesS32 s @ ?body"
    by (simp add: table_bytes_def fr(1-3) cnt)
  have r1: "ReadU16 (Buffer_new ?data) = Some (0, \<lparr>buffer = ?data, offset = 2\<rparr>)"
    using ReadU16_bytes [of "Buffer_new ?data" 0 "bytesU16 n @ bytesS32 s @ ?body"]
    by (simp add: bytes Buffer_new_def)
  have r2: "ReadS16 \<lparr>buffer = ?data, offset = 2\<rparr> = Some (n, \<lparr>buffer = ?data, offset = 4\<rparr>)"
    using ReadU16_bytes [of "\<lparr>buffer = ?data, offset = 2\<rparr>" n "bytesS32 s @ ?body"]
    by (simp add: bytes ReadS16_def bytesU16_def)
  have r3: "ReadS32 \<lparr>buffer = ?data, offset = 4\<rparr> = Some (s, \<lparr>buffer = ?data, offset = 8\<rparr>)"
    using ReadS32_bytes [of "\<lparr>buffer = ?data, offset = 4\<rparr>" s ?body]
    by (simp add: bytes bytesU16_def)
  have eq: "Parse pad_conv font ?data (new_OpenTypeHDMX indet')
              = Parse_records (unat (num_glyphs m)) (nat (sint n)) 0 0
                  \<lparr>buffer = ?data, offset = 8\<rparr> ?start'"
    using h m fl r1 r2 r3 n lo hi by (rule Parse_header_ok)
  have "Parse_records (unat (num_glyphs m)) (length (records this)) 0 0
          \<lparr>buffer = ?data, offset = 8\<rparr> ?start'
        = (Success, ?start'\<lparr>records := records ?start' @ records this\<rparr>)"
  proof (rule Parse_records_encoded [where rest = "[]"])
    show "drop (offset \<lparr>buffer = ?data, offset = 8\<rparr>) (buffer \<lparr>buffer = ?data, offset = 8\<rparr>)
            = concat (map (record_bytes (pad_len ?start')) (records this)) @ []"
      by (simp add: bytes bytesU16_def bytesS32_def)
    show "\<forall>r \<in> set (records this). length (widths r) = unat (num_glyphs m)"
      by (rule wd)
    show "successively (<) (map pixel_size (records this))"
      by (rule sorted)
    show "records this = [] \<or> (0::nat) = 0 \<or> 0 < pixel_size (hd (records this))"
      by simp
  qed
  moreover have "?start'\<lparr>records := records ?start' @ records this\<rparr> = this"
    using fr(1-3) by (cases this, cases indet') (simp add: new_OpenTypeHDMX_def)
  ultimately show ?thesis
    using eq fr(4) by simp
qed

text \<open>
  For a font with at least one glyph, serializing a successfully parsed table into an
  empty sink with room for it succeeds, and parsing the emitted bytes again with the same
  prerequisites gives the same table.
\<close>

lemma Serialize_Parse_again:
  assumes parse: "Parse pad_conv font data (new_OpenTypeHDMX indet) = (Success, this)"
    and m: "maxp font = Some m" and ng: "num_glyphs m \<noteq> 0"
  shows "(length (table_bytes this) \<le> cap \<longrightarrow>
            Serialize this \<lparr>written = [], capacity = cap\<rparr>
              = Some (Success, \<lparr>written = table_bytes this, capacity = cap\<rparr>))
       \<and> (\<forall>out. Serialize this \<lparr>written = [], capacity = cap\<rparr> = Some (Success, out) \<longrightarrow>
             Parse pad_conv font (written out) (new_OpenTypeHDMX indet') = (Success, this)
             \<and> records (snd (Parse pad_conv font (written out) (new_OpenTypeHDMX indet')))
                 = records this)"
proof
  show "length (table_bytes this) \<le> cap \<longrightarrow>
            Serialize this \<lparr>written = [], capacity = cap\<rparr>
              = Some (Success, \<lparr>written = table_bytes this, capacity = cap\<rparr>)"
  proof
    assume room: "length (table_bytes this) \<le> cap"
    from Parse_inversion [OF parse]
    obtain n s pad b3 this0 where n: "0 < sint (n :: 16 word)" and pad: "pad \<le> (3::int)"
      and loop: "Parse_records (unat (num_glyphs m)) (nat (sint n)) 0 0 b3
                   (this0\<lparr>version := 0, size_device_record := s, pad_len := pad\<rparr>) = (Success, this)"
      and r0: "records this0 = []"
      using m by (auto simp: new_OpenTypeHDMX_def)
    from Parse_records_widths [OF loop] r0
    have "\<forall>r \<in> set (records this). length (widths r) = unat (num_glyphs m)"
      by simp
    moreover have "unat (num_glyphs m) \<noteq> 0"
      using ng by (simp add: unat_eq_0)
    ultimately have wd: "\<forall>r \<in> set (records this). widths r \<noteq> []"
      by auto
    from Parse_records_frame [OF loop] r0
    have fr: "pad_len this = pad" "length (records this) = nat (sint n)"
      by simp_all
    have "sint n \<le> 32767" using sint_lt [of n] by simp
    with fr(2) n have len: "length (records this) \<le> 32767" by linarith
    from fr(1) pad have p4: "pad_len this \<le> 4" by simp
    from Serialize_room [OF len p4 _ wd, of "\<lparr>written = [], capacity = cap\<rparr>"] room
    show "Serialize this \<lparr>written = [], capacity = cap\<rparr>
            = Some (Success, \<lparr>written = table_bytes this, capacity = cap\<rparr>)"
      by simp
  qed
  show "\<forall>out. Serialize this \<lparr>written = [], capacity = cap\<rparr> = Some (Success, out) \<longrightarrow>
             Parse pad_conv font (written out) (new_OpenTypeHDMX indet') = (Success, this)
             \<and> records (snd (Parse pad_conv font (written out) (new_OpenTypeHDMX indet')))
                 = records this"
  proof (intro allI impI)
    fix out
    assume "Serialize this \<lparr>written = [], capacity = cap\<rparr> = Some (Success, out)"
    from Serialize_written [OF this] have "written out = table_bytes this"
      by simp
    with Parse_table_bytes [OF parse, of indet']
    show "Parse pad_conv font (written out) (new_OpenTypeHDMX indet') = (Success, this)
          \<and> records (snd (Parse pad_conv font (written out) (new_OpenTypeHDMX indet')))
              = records this"
      by simp
  qed
qed



text \<open>
  C3. The claim fails on the code for a font with no glyphs: \<open>Parse\<close> accepts a table
  whose record size is 2, each record having no widths, and line 103 of \<open>Serialize\<close> then
  takes \<open>rec.widths[0]\<close> of an empty vector, which has no defined behaviour: there is no
  emitted table to parse again.
\<close>

theorem Serialize_empty_widths_undefined:
  "head font_no_glyphs = Some \<lparr>flags = 0x14\<rparr> \<and> maxp font_no_glyphs = Some \<lparr>num_glyphs = 0\<rparr>
   \<and> Parse id font_no_glyphs data_no_widths (new_OpenTypeHDMX table_indet)
       = (Success, table_no_widths)
   \<and> records table_no_widths = [\<lparr>pixel_size = 12, max_width = 10, widths = []\<rparr>]
   \<and> Serialize table_no_widths empty_sink = None"
  by code_simp

end
